theory Spec2Isabelle
  imports Main "HOL-Library.Word"
begin

unbundle bit_operations_syntax

section \<open>Token service: the binary decoder\<close>

text \<open>
  The decoder of the token service works on a Node \<open>Buffer\<close>, a sequence of bytes, and on
  JavaScript numbers. Offsets, lengths and decoded values are natural numbers here. The
  source computes them in IEEE doubles, which hold every integer below \<open>2 ^ 53\<close> exactly,
  so the two agree as long as a decoded value stays below that bound; the position a read
  returns never depends on the accumulated value. A decoded string is identified with the
  sequence of its UTF-8 bytes, each byte one \<open>char\<close>.
\<close>

type_synonym byte = "8 word"
type_synonym buffer = "byte list"

datatype error = IncompleteVarint | UnknownWireType int

text \<open>\<open>Buffer.subarray(start, end)\<close>: both ends are clamped to the buffer.\<close>

definition subarray :: "buffer \<Rightarrow> nat \<Rightarrow> nat \<Rightarrow> buffer" where
  "subarray data start end = take (end - start) (drop start data)"

text \<open>\<open>Buffer.toString()\<close> on bytes that are the UTF-8 form of a string.\<close>

definition toString :: "buffer \<Rightarrow> string" where
  "toString value = map (\<lambda>b. char_of (unat b)) value"

text \<open>
  \<open>readVarint\<close>: the \<open>while\<close> loop with its three variables; leaving the loop at the end
  of the buffer is the \<open>throw new Error('Incomplete varint')\<close>.
\<close>

function readVarint_loop :: "buffer \<Rightarrow> nat \<Rightarrow> nat \<Rightarrow> nat \<Rightarrow> error + (nat \<times> nat)" where
  "readVarint_loop data result shift pos =
     (if pos < length data then
        (let byte = data ! pos;
             result' = result + unat (byte AND 0x7f) * 2 ^ shift;
             pos' = pos + 1
         in if byte AND 0x80 = 0 then Inr (result', pos')
            else readVarint_loop data result' (shift + 7) pos')
      else Inl IncompleteVarint)"
  by pat_completeness auto
termination
  by (relation "measure (\<lambda>(data, result, shift, pos). length data - pos)") auto

declare readVarint_loop.simps [simp del]

definition readVarint :: "buffer \<Rightarrow> nat \<Rightarrow> error + (nat \<times> nat)" where
  "readVarint data offset = readVarint_loop data 0 0 offset"

text \<open>
  The bitwise operators of JavaScript first convert their operand to a signed 32-bit
  integer. \<open>tag & 7\<close> and \<open>tag >> 3\<close> (an arithmetic shift) are taken on that integer.
\<close>

definition toInt32 :: "nat \<Rightarrow> int" where
  "toInt32 n = sint (word_of_nat n :: 32 word)"

definition wireTypeOf :: "nat \<Rightarrow> int" where
  "wireTypeOf tag = toInt32 tag AND 7"

definition fieldNumOf :: "nat \<Rightarrow> int" where
  "fieldNumOf tag = drop_bit 3 (toInt32 tag)"

definition skipField :: "buffer \<Rightarrow> nat \<Rightarrow> int \<Rightarrow> error + nat" where
  "skipField data offset wireType =
     (if wireType = 0 then
        (case readVarint data offset of
           Inl e \<Rightarrow> Inl e
         | Inr (_, newOffset) \<Rightarrow> Inr newOffset)
      else if wireType = 1 then Inr (offset + 8)
      else if wireType = 2 then
        (case readVarint data offset of
           Inl e \<Rightarrow> Inl e
         | Inr (len, contentOffset) \<Rightarrow> Inr (contentOffset + len))
      else if wireType = 5 then Inr (offset + 4)
      else Inl (UnknownWireType wireType))"

lemma readVarint_loop_pos:
  "readVarint_loop data result shift pos = Inr (v, p) \<Longrightarrow> pos < p \<and> p \<le> length data"
proof (induction data result shift pos rule: readVarint_loop.induct)
  case (1 data result shift pos)
  show ?case
  proof (cases "pos < length data")
    case False
    with "1.prems" show ?thesis by (simp add: readVarint_loop.simps [of data result shift pos])
  next
    case True
    show ?thesis
    proof (cases "data ! pos AND 0x80 = 0")
      case stop: True
      with True "1.prems" show ?thesis
        by (auto simp: Let_def readVarint_loop.simps [of data result shift pos])
    next
      case cont: False
      with True "1.prems" have
        "readVarint_loop data (result + unat (data ! pos AND 0x7f) * 2 ^ shift) (shift + 7) (pos + 1)
           = Inr (v, p)"
        by (simp add: Let_def readVarint_loop.simps [of data result shift pos])
      with "1.IH" [OF True refl refl refl cont] show ?thesis by simp
    qed
  qed
qed

lemma readVarint_pos:
  "readVarint data offset = Inr (v, p) \<Longrightarrow> offset < p \<and> p \<le> length data"
  unfolding readVarint_def by (rule readVarint_loop_pos)

lemma skipField_pos:
  "skipField data offset wireType = Inr p \<Longrightarrow> offset < p"
  by (auto simp: skipField_def split: if_splits sum.splits dest: readVarint_pos)

text \<open>
  \<open>findField\<close>: only the read of the tag sits inside \<open>try\<close>; a failure there leaves the
  loop and the function returns \<open>undefined\<close>. The read of the length of a matching field
  and the call of \<open>skipField\<close> are outside it, so their errors leave the function.
\<close>

function findField_loop :: "buffer \<Rightarrow> int \<Rightarrow> nat \<Rightarrow> error + buffer option" where
  "findField_loop data targetField offset =
     (if offset < length data then
        (case readVarint data offset of
           Inl _ \<Rightarrow> Inr None
         | Inr (tag, newOffset) \<Rightarrow>
             if fieldNumOf tag = targetField \<and> wireTypeOf tag = 2 then
               (case readVarint data newOffset of
                  Inl e \<Rightarrow> Inl e
                | Inr (len, contentOffset) \<Rightarrow>
                    Inr (Some (subarray data contentOffset (contentOffset + len))))
             else
               (case skipField data newOffset (wireTypeOf tag) of
                  Inl e \<Rightarrow> Inl e
                | Inr offset' \<Rightarrow> findField_loop data targetField offset'))
      else Inr None)"
  by pat_completeness auto
termination
  by (relation "measure (\<lambda>(data, targetField, offset). length data - offset)")
     (auto dest!: readVarint_pos skipField_pos)

declare findField_loop.simps [simp del]

definition findField :: "buffer \<Rightarrow> int \<Rightarrow> error + buffer option" where
  "findField data targetField = findField_loop data targetField 0"

text \<open>
  \<open>parseOAuthTokenInfo\<close>: the whole loop body sits inside \<open>try\<close>, and \<open>catch\<close> leaves the
  loop, so every decoder error ends the scan with the fields read so far.
\<close>

record TokenInfo =
  accessToken_opt :: "string option"
  refreshToken_opt :: "string option"

function parseOAuthTokenInfo_loop :: "buffer \<Rightarrow> nat \<Rightarrow> TokenInfo \<Rightarrow> TokenInfo" where
  "parseOAuthTokenInfo_loop data offset info =
     (if offset < length data then
        (case readVarint data offset of
           Inl _ \<Rightarrow> info
         | Inr (tag, newOffset) \<Rightarrow>
             if wireTypeOf tag = 2 then
               (case readVarint data newOffset of
                  Inl _ \<Rightarrow> info
                | Inr (len, contentOffset) \<Rightarrow>
                    (let value = subarray data contentOffset (contentOffset + len);
                         offset' = contentOffset + len
                     in parseOAuthTokenInfo_loop data offset'
                          (if fieldNumOf tag = 1 then info\<lparr>accessToken_opt := Some (toString value)\<rparr>
                           else if fieldNumOf tag = 3 then info\<lparr>refreshToken_opt := Some (toString value)\<rparr>
                           else info)))
             else
               (case skipField data newOffset (wireTypeOf tag) of
                  Inl _ \<Rightarrow> info
                | Inr offset' \<Rightarrow> parseOAuthTokenInfo_loop data offset' info))
      else info)"
  by pat_completeness auto
termination
  by (relation "measure (\<lambda>(data, offset, info). length data - offset)")
     (auto dest!: readVarint_pos skipField_pos)

declare parseOAuthTokenInfo_loop.simps [simp del]

definition parseOAuthTokenInfo :: "buffer \<Rightarrow> TokenInfo" where
  "parseOAuthTokenInfo data =
     parseOAuthTokenInfo_loop data 0 \<lparr>accessToken_opt = None, refreshToken_opt = None\<rparr>"

subsection \<open>The encoded message\<close>

text \<open>
  Modelled from the spec: the source has no encoder. An EncodedMessage is a byte buffer of
  repeated (fieldNumber, wireType, value) with wireType one of varint (0), 64-bit (1),
  length-delimited (2) and 32-bit (5); a varint is written in 7-bit groups, least
  significant first, with the high bit of a byte saying that another group follows. The
  source names the format: Protobuf, whose field numbers lie between 1 and \<open>2 ^ 29 - 1\<close>
  and whose varints hold 64 bits.
\<close>

function encodeVarint :: "nat \<Rightarrow> buffer" where
  "encodeVarint n =
     (if n < 128 then [word_of_nat n]
      else word_of_nat (n mod 128 + 128) # encodeVarint (n div 128))"
  by pat_completeness auto
termination
  by (relation "measure id") auto

declare encodeVarint.simps [simp del]

datatype field =
    VarintField nat nat
  | Fixed64Field nat buffer
  | LenField nat buffer
  | Fixed32Field nat buffer

fun fieldNumber :: "field \<Rightarrow> nat" where
  "fieldNumber (VarintField n v) = n"
| "fieldNumber (Fixed64Field n bs) = n"
| "fieldNumber (LenField n bs) = n"
| "fieldNumber (Fixed32Field n bs) = n"

fun wireType :: "field \<Rightarrow> nat" where
  "wireType (VarintField n v) = 0"
| "wireType (Fixed64Field n bs) = 1"
| "wireType (LenField n bs) = 2"
| "wireType (Fixed32Field n bs) = 5"

definition tagOf :: "field \<Rightarrow> nat" where
  "tagOf f = fieldNumber f * 8 + wireType f"

fun encodeValue :: "field \<Rightarrow> buffer" where
  "encodeValue (VarintField n v) = encodeVarint v"
| "encodeValue (Fixed64Field n bs) = bs"
| "encodeValue (LenField n bs) = encodeVarint (length bs) @ bs"
| "encodeValue (Fixed32Field n bs) = bs"

definition encodeField :: "field \<Rightarrow> buffer" where
  "encodeField f = encodeVarint (tagOf f) @ encodeValue f"

definition encodeMessage :: "field list \<Rightarrow> buffer" where
  "encodeMessage fs = concat (map encodeField fs)"

fun wellFormed :: "field \<Rightarrow> bool" where
  "wellFormed (VarintField n v) = (0 < n \<and> n < 2 ^ 29 \<and> v < 2 ^ 64)"
| "wellFormed (Fixed64Field n bs) = (0 < n \<and> n < 2 ^ 29 \<and> length bs = 8)"
| "wellFormed (LenField n bs) = (0 < n \<and> n < 2 ^ 29)"
| "wellFormed (Fixed32Field n bs) = (0 < n \<and> n < 2 ^ 29 \<and> length bs = 4)"

text \<open>
  Modelled from the spec: the repeated application of the tag read and \<open>skipField\<close> over
  a whole buffer, while the offset is inside the buffer. It is the loop of \<open>findField\<close>
  when no field matches, with every error reported and the last offset returned.
\<close>

function scanFields :: "buffer \<Rightarrow> nat \<Rightarrow> error + nat" where
  "scanFields data offset =
     (if offset < length data then
        (case readVarint data offset of
           Inl e \<Rightarrow> Inl e
         | Inr (tag, newOffset) \<Rightarrow>
             (case skipField data newOffset (wireTypeOf tag) of
                Inl e \<Rightarrow> Inl e
              | Inr offset' \<Rightarrow> scanFields data offset'))
      else Inr offset)"
  by pat_completeness auto
termination
  by (relation "measure (\<lambda>(data, offset). length data - offset)")
     (auto dest!: readVarint_pos skipField_pos)

declare scanFields.simps [simp del]

text \<open>The payload of the first length-delimited field with the given number.\<close>

fun firstLenField :: "field list \<Rightarrow> int \<Rightarrow> buffer option" where
  "firstLenField [] target = None"
| "firstLenField (LenField n bs # fs) target =
     (if int n = target then Some bs else firstLenField fs target)"
| "firstLenField (f # fs) target = firstLenField fs target"

text \<open>A field that \<open>findField\<close> is looking for: length-delimited, with the target number.\<close>

fun isTarget :: "int \<Rightarrow> field \<Rightarrow> bool" where
  "isTarget target (LenField n bs) = (int n = target)"
| "isTarget target f = False"

text \<open>
  Modelled from the spec: the two-level shape of the token blob. The inner message holds
  the access token at field 1 and the refresh token at field 3, both as UTF-8 strings;
  the blob wraps it as one length-delimited outer field (number 6 in the default schema,
  1 in the unified one). \<open>fromString\<close> is \<open>Buffer.from(s, 'utf8')\<close>.
\<close>

definition fromString :: "string \<Rightarrow> buffer" where
  "fromString s = map (\<lambda>c. word_of_nat (of_char c)) s"

definition encodeOAuthTokenInfo :: "string \<Rightarrow> string \<Rightarrow> buffer" where
  "encodeOAuthTokenInfo T R = encodeMessage [LenField 1 (fromString T), LenField 3 (fromString R)]"

definition encodeTokenBlob :: "nat \<Rightarrow> string \<Rightarrow> string \<Rightarrow> buffer" where
  "encodeTokenBlob outer T R = encodeMessage [LenField outer (encodeOAuthTokenInfo T R)]"

text \<open>What one field adds to the result of \<open>parseOAuthTokenInfo\<close>.\<close>

fun noteField :: "TokenInfo \<Rightarrow> field \<Rightarrow> TokenInfo" where
  "noteField info (LenField n bs) =
     (if n = 1 then info\<lparr>accessToken_opt := Some (toString bs)\<rparr>
      else if n = 3 then info\<lparr>refreshToken_opt := Some (toString bs)\<rparr>
      else info)"
| "noteField info f = info"

section \<open>Token service: the host\<close>

text \<open>
  What the service reads from outside itself is a parameter of the model: the state
  database of the host application, seen through \<open>sql.js\<close> as the key-value table
  \<open>ItemTable\<close> and through \<open>fs.readFileSync\<close> as text; the library functions
  \<open>JSON.parse\<close>, \<open>JSON.stringify\<close> and \<open>Buffer.from(s, 'base64')\<close>; the token endpoint; and
  the clock. A parsed value has the shape its TypeScript type declares; a parse that
  throws is \<open>None\<close>. The secret storage of the editor is a map that never fails.
  A string is a list of characters, its length the number of them; \<open>trim\<close>, \<open>\s\<close> and
  \<open>toLowerCase\<close> are modelled on ASCII.
\<close>

datatype failure = DecoderError error | IOError | SyntaxError

record StoredCredential =
  accessToken :: string
  refreshToken :: "string option"
  expiresAt :: int
  email :: string
  createdAt :: int

record AuthStatus =
  authEmail :: "string option"
  apiKey :: "string option"

record ExtractedTokens =
  accessToken_x :: string
  refreshToken_x :: "string option"

record host =
  dbExists :: bool
  dbItems :: "(string \<Rightarrow> string option) option"
  dbText :: "string option"
  JSON_parse_authStatus :: "string \<Rightarrow> AuthStatus option"
  JSON_parse_credential :: "string \<Rightarrow> StoredCredential option"
  JSON_stringify_credential :: "StoredCredential \<Rightarrow> string"
  base64 :: "string \<Rightarrow> buffer"
  base64_utf8 :: "string \<Rightarrow> string"
  tokenEndpoint :: "string \<Rightarrow> (string \<times> int) option"
  now :: int

definition TOKEN_PREFIX :: string where
  "TOKEN_PREFIX = ''rerevolve.token.''"

definition STATE_KEY :: string where
  "STATE_KEY = ''jetskiStateSync.agentManagerInitState''"

text \<open>The truth value JavaScript gives a \<open>string | null | undefined\<close>.\<close>

definition truthy :: "string option \<Rightarrow> bool" where
  "truthy s = (case s of None \<Rightarrow> False | Some v \<Rightarrow> v \<noteq> [])"

text \<open>
  \<open>try { body } catch (err) { handler }\<close>: a failure of the body runs the handler, which
  may fail itself; only a failure of the handler leaves the statement.
\<close>

definition tryCatch :: "failure + 'a \<Rightarrow> (failure \<Rightarrow> failure + 'a) \<Rightarrow> failure + 'a" where
  "tryCatch body handler = (case body of Inl e \<Rightarrow> handler e | Inr v \<Rightarrow> Inr v)"

text \<open>The same for a function that returns in both parts and cannot fail in the handler.\<close>

definition catch :: "failure + 'a \<Rightarrow> 'a \<Rightarrow> 'a" where
  "catch body fallback = (case body of Inl e \<Rightarrow> fallback | Inr v \<Rightarrow> v)"

definition isSpace :: "char \<Rightarrow> bool" where
  "isSpace c = (c = CHR 0x20 \<or> c = CHR 0x09 \<or> c = CHR 0x0A \<or> c = CHR 0x0B \<or> c = CHR 0x0C
                \<or> c = CHR 0x0D)"

definition trim :: "string \<Rightarrow> string" where
  "trim s = rev (dropWhile isSpace (rev (dropWhile isSpace s)))"

definition toLowerCase :: "string \<Rightarrow> string" where
  "toLowerCase s =
     map (\<lambda>c. if 65 \<le> (of_char c :: nat) \<and> (of_char c :: nat) \<le> 90
              then char_of ((of_char c :: nat) + 32) else c) s"

subsection \<open>Strategy 1: the direct status read\<close>

definition getAuthStatus_try :: "host \<Rightarrow> failure + AuthStatus option" where
  "getAuthStatus_try h =
     (case dbItems h of
        None \<Rightarrow> Inl IOError
      | Some items \<Rightarrow>
          (case items ''antigravityAuthStatus'' of
             None \<Rightarrow> Inr None
           | Some v \<Rightarrow>
               if v = [] then Inr None
               else (case JSON_parse_authStatus h v of
                       None \<Rightarrow> Inl SyntaxError
                     | Some json \<Rightarrow> Inr (Some json))))"

definition getAuthStatus :: "host \<Rightarrow> failure + AuthStatus option" where
  "getAuthStatus h =
     (if \<not> dbExists h then Inr None else tryCatch (getAuthStatus_try h) (\<lambda>err. Inr None))"

subsection \<open>Strategy 2: the structured decode\<close>





text \<open>\<open>getRefreshToken\<close>: the same decode on the unified key, outer field 1.\<close>

definition getRefreshToken_try :: "host \<Rightarrow> failure + string option" where
  "getRefreshToken_try h =
     (case dbItems h of
        None \<Rightarrow> Inl IOError
      | Some items \<Rightarrow>
          (case items ''antigravityUnifiedStateSync.oauthToken'' of
             None \<Rightarrow> Inr None
           | Some v \<Rightarrow>
               if v = [] then Inr None
               else (case findField (base64 h (trim v)) 1 of
                       Inl e \<Rightarrow> Inl (DecoderError e)
                     | Inr None \<Rightarrow> Inr None
                     | Inr (Some oauthField) \<Rightarrow>
                         if truthy (refreshToken_opt (parseOAuthTokenInfo oauthField))
                         then Inr (refreshToken_opt (parseOAuthTokenInfo oauthField))
                         else Inr None)))"

definition getRefreshToken :: "host \<Rightarrow> failure + string option" where
  "getRefreshToken h =
     (if \<not> dbExists h then Inr None else tryCatch (getRefreshToken_try h) (\<lambda>err. Inr None))"

subsection \<open>Strategy 3: the byte scan\<close>

text \<open>
  A global regular expression run with \<open>exec\<close> in a loop: the leftmost match from the
  current position, then on from the end of that match. A matcher tells, for the text at
  a position, the length of the match there and the string kept from it. None of the
  patterns matches the empty string, so the step is never shorter than one character.
\<close>

function regexAll :: "(string \<Rightarrow> (nat \<times> string) option) \<Rightarrow> string \<Rightarrow> nat \<Rightarrow> (nat \<times> string) list" where
  "regexAll m s i =
     (if s = [] then []
      else (case m s of
              Some (len, tok) \<Rightarrow> (i, tok) # regexAll m (drop (max 1 len) s) (i + max 1 len)
            | None \<Rightarrow> regexAll m (tl s) (i + 1)))"
  by pat_completeness auto
termination
  by (relation "measure (\<lambda>(m, s, i). length s)") (auto simp: neq_Nil_conv)

declare regexAll.simps [simp del]

definition isAlnum :: "char \<Rightarrow> bool" where
  "isAlnum c = ((97 \<le> (of_char c :: nat) \<and> (of_char c :: nat) \<le> 122)
              \<or> (65 \<le> (of_char c :: nat) \<and> (of_char c :: nat) \<le> 90)
              \<or> (48 \<le> (of_char c :: nat) \<and> (of_char c :: nat) \<le> 57))"

text \<open>\<open>[a-zA-Z0-9_-]\<close> and \<open>[a-zA-Z0-9+/=_-]\<close>.\<close>

definition isTokenChar :: "char \<Rightarrow> bool" where
  "isTokenChar c = (isAlnum c \<or> c = CHR ''_'' \<or> c = CHR ''-'')"

definition isBase64Char :: "char \<Rightarrow> bool" where
  "isBase64Char c = (isAlnum c \<or> c = CHR ''+'' \<or> c = CHR ''/'' \<or> c = CHR ''='' \<or> c = CHR ''_''
                     \<or> c = CHR ''-'')"

text \<open>
  A literal prefix followed by between \<open>lo\<close> and \<open>hi\<close> characters of a class, as many as
  there are (\<open>hi = None\<close>: no upper bound). The whole match is kept.
\<close>

definition matchPrefixRun ::
  "string \<Rightarrow> (char \<Rightarrow> bool) \<Rightarrow> nat \<Rightarrow> nat option \<Rightarrow> string \<Rightarrow> (nat \<times> string) option" where
  "matchPrefixRun prefix cls lo hi s =
     (if take (length prefix) s = prefix then
        (let run = takeWhile cls (drop (length prefix) s);
             run' = (case hi of None \<Rightarrow> run | Some k \<Rightarrow> take k run)
         in if lo \<le> length run' then Some (length prefix + length run', prefix @ run') else None)
      else None)"

text \<open>\<open>/eWEyOS[a-zA-Z0-9+/=_-]{50,300}/g\<close>\<close>
definition base64Regex :: "string \<Rightarrow> (nat \<times> string) option" where
  "base64Regex = matchPrefixRun ''eWEyOS'' isBase64Char 50 (Some 300)"

text \<open>\<open>/ya29\.[a-zA-Z0-9_-]+/\<close>\<close>
definition tokenRegex :: "string \<Rightarrow> (nat \<times> string) option" where
  "tokenRegex = matchPrefixRun ''ya29.'' isTokenChar 1 None"

text \<open>\<open>/ya29\.[a-zA-Z0-9_-]{100,}/g\<close>\<close>
definition directRegex :: "string \<Rightarrow> (nat \<times> string) option" where
  "directRegex = matchPrefixRun ''ya29.'' isTokenChar 100 None"

text \<open>\<open>/1\/[a-zA-Z0-9_-]{40,150}/g\<close>\<close>
definition refreshRegex1 :: "string \<Rightarrow> (nat \<times> string) option" where
  "refreshRegex1 = matchPrefixRun ''1/'' isTokenChar 40 (Some 150)"

text \<open>\<open>/1\/\/[a-zA-Z0-9_-]{30,150}/g\<close>\<close>
definition refreshRegex2 :: "string \<Rightarrow> (nat \<times> string) option" where
  "refreshRegex2 = matchPrefixRun ''1//'' isTokenChar 30 (Some 150)"

text \<open>
  \<open>/"refresh_token"\s*:\s*"([^"]{30,200})"/g\<close>: the group is kept. The characters up to
  the closing quote are none of them a quote, so the group is all of them and there must
  be between 30 and 200.
\<close>

definition refreshRegex3 :: "string \<Rightarrow> (nat \<times> string) option" where
  "refreshRegex3 s =
     (let key = [CHR 0x22] @ ''refresh_token'' @ [CHR 0x22] in
      if take (length key) s = key then
        (let s1 = dropWhile isSpace (drop (length key) s) in
         if s1 \<noteq> [] \<and> hd s1 = CHR '':'' then
           (let s2 = dropWhile isSpace (tl s1) in
            if s2 \<noteq> [] \<and> hd s2 = CHR 0x22 then
              (let group = takeWhile (\<lambda>c. c \<noteq> CHR 0x22) (tl s2);
                   s3 = drop (length group) (tl s2)
               in if 30 \<le> length group \<and> length group \<le> 200 \<and> s3 \<noteq> []
                  then Some (length s - length (tl s3), group) else None)
            else None)
         else None)
      else None)"

text \<open>The first match of a pattern without the \<open>g\<close> flag: \<open>decoded.match(...)\<close>.\<close>

definition firstMatch :: "(string \<Rightarrow> (nat \<times> string) option) \<Rightarrow> string \<Rightarrow> string option" where
  "firstMatch m s = (case regexAll m s 0 of [] \<Rightarrow> None | (i, tok) # rest \<Rightarrow> Some tok)"

text \<open>The access tokens found in base64 form: decoded, and kept when longer than 100.\<close>

definition base64Tokens :: "host \<Rightarrow> string \<Rightarrow> (nat \<times> string) list" where
  "base64Tokens h content =
     List.map_filter
       (\<lambda>(index, m). case firstMatch tokenRegex (base64_utf8 h m) of
                        None \<Rightarrow> None
                      | Some tokenMatch \<Rightarrow>
                          if 100 < length tokenMatch then Some (index, tokenMatch) else None)
       (regexAll base64Regex content 0)"

definition allTokens :: "host \<Rightarrow> string \<Rightarrow> (nat \<times> string) list" where
  "allTokens h content = base64Tokens h content @ regexAll directRegex content 0"

definition refreshTokens :: "string \<Rightarrow> (nat \<times> string) list" where
  "refreshTokens content =
     regexAll refreshRegex1 content 0 @ regexAll refreshRegex2 content 0
       @ regexAll refreshRegex3 content 0"

text \<open>\<open>xs.sort((a, b) => a.index - b.index)\<close> and then the last element.\<close>

definition lastByIndex :: "(nat \<times> string) list \<Rightarrow> string" where
  "lastByIndex xs = snd (last (sort_key fst xs))"

definition extractTokensFromDb_try :: "host \<Rightarrow> failure + ExtractedTokens option" where
  "extractTokensFromDb_try h =
     (case dbText h of
        None \<Rightarrow> Inl IOError
      | Some content \<Rightarrow>
          (let refreshToken =
                 (if refreshTokens content \<noteq> [] then Some (lastByIndex (refreshTokens content))
                  else None)
           in if allTokens h content \<noteq> []
              then Inr (Some \<lparr>accessToken_x = lastByIndex (allTokens h content),
                               refreshToken_x = refreshToken\<rparr>)
              else Inr None))"

definition extractTokensFromDb :: "host \<Rightarrow> failure + ExtractedTokens option" where
  "extractTokensFromDb h =
     (if \<not> dbExists h then Inr None else tryCatch (extractTokensFromDb_try h) (\<lambda>err. Inr None))"


section \<open>Token service: the credential store\<close>

text \<open>
  The state the service changes: the secret storage, and what it lets the outside see,
  in order: a call of \<open>refreshAccessToken\<close>, a request to the token endpoint, a call of
  \<open>tryAutoRecovery\<close>, and the messages shown to the user.
\<close>

datatype message =
    NotLoggedIn
  | LoginUnreadable
  | EmailMismatch string string
  | TokenCaptured string bool
  | CaptureFailed
  | TokenRecovered string

datatype event =
    RefreshCalled
  | TokenExchange string
  | RecoveryCalled string
  | ShowErrorMessage message
  | ShowWarningMessage message
  | ShowInformationMessage message

record world =
  secrets :: "string \<Rightarrow> string option"
  events :: "event list"

definition emit :: "event \<Rightarrow> world \<Rightarrow> world" where
  "emit e w = w\<lparr>events := events w @ [e]\<rparr>"

definition store :: "string \<Rightarrow> string \<Rightarrow> world \<Rightarrow> world" where
  "store key v w = w\<lparr>secrets := (secrets w)(key \<mapsto> v)\<rparr>"

text \<open>\<open>tryAutoRecovery\<close>: the byte scan, and a record with a lifetime of 55 minutes.\<close>

definition tryAutoRecovery :: "host \<Rightarrow> string \<Rightarrow> world \<Rightarrow> bool \<times> world" where
  "tryAutoRecovery h email' w =
     (let w1 = emit (RecoveryCalled email') w in
      case extractTokensFromDb h of
        Inl e \<Rightarrow> (False, w1)
      | Inr None \<Rightarrow> (False, w1)
      | Inr (Some tokens) \<Rightarrow>
          (let credential = \<lparr>accessToken = accessToken_x tokens,
                              refreshToken = refreshToken_x tokens,
                              expiresAt = now h + 55 * 60 * 1000,
                              email = email',
                              createdAt = now h\<rparr>
           in (True, emit (ShowInformationMessage (TokenRecovered email'))
                       (store (TOKEN_PREFIX @ email') (JSON_stringify_credential h credential) w1))))"

text \<open>
  \<open>refreshAccessToken\<close>: no request without a refresh token; a failed request, a
  response that is not ok and an exception all give \<open>null\<close>.
\<close>

definition refreshAccessToken ::
  "host \<Rightarrow> StoredCredential \<Rightarrow> world \<Rightarrow> (string \<times> int) option \<times> world" where
  "refreshAccessToken h credential w =
     (let w1 = emit RefreshCalled w in
      if \<not> truthy (refreshToken credential) then (None, w1)
      else (case refreshToken credential of
              None \<Rightarrow> (None, w1)
            | Some rt \<Rightarrow>
                (case tokenEndpoint h rt of
                   None \<Rightarrow> (None, emit (TokenExchange rt) w1)
                 | Some (access_token, expires_in) \<Rightarrow>
                     (Some (access_token, now h + expires_in * 1000),
                      emit (TokenExchange rt) w1))))"

text \<open>The \<open>catch\<close> of \<open>getToken\<close>: a stored value that is no JSON is an old raw token.\<close>

definition rawToken :: "string \<Rightarrow> string option" where
  "rawToken stored = (if 10 < length stored then Some stored else None)"

definition getToken :: "host \<Rightarrow> string \<Rightarrow> world \<Rightarrow> string option \<times> world" where
  "getToken h email' w =
     (let stored0 = secrets w (TOKEN_PREFIX @ email');
          (stored, w1) =
            (if \<not> truthy stored0 then
               (let (recovered, w') = tryAutoRecovery h email' w
                in (if recovered then secrets w' (TOKEN_PREFIX @ email') else stored0, w'))
             else (stored0, w))
      in case stored of
           None \<Rightarrow> (None, w1)
         | Some stored \<Rightarrow>
             if stored = [] then (None, w1)
             else (case JSON_parse_credential h stored of
                     None \<Rightarrow> (rawToken stored, w1)
                   | Some credential \<Rightarrow>
                       if now h > expiresAt credential - 5 * 60 * 1000 then
                         (let (refreshed, w2) = refreshAccessToken h credential w1 in
                          case refreshed of
                            Some (newAccess, newExpiry) \<Rightarrow>
                              (Some newAccess,
                               store (TOKEN_PREFIX @ email')
                                 (JSON_stringify_credential h
                                    (credential\<lparr>accessToken := newAccess, expiresAt := newExpiry\<rparr>))
                                 w2)
                          | None \<Rightarrow>
                              (let (recovered, w3) = tryAutoRecovery h email' w2 in
                               if recovered \<and> truthy (secrets w3 (TOKEN_PREFIX @ email')) then
                                 (case secrets w3 (TOKEN_PREFIX @ email') of
                                    None \<Rightarrow> (Some (accessToken credential), w3)
                                  | Some newStored \<Rightarrow>
                                      (case JSON_parse_credential h newStored of
                                         None \<Rightarrow> (rawToken stored, w3)
                                       | Some newCredential \<Rightarrow>
                                           (Some (accessToken newCredential), w3)))
                               else (Some (accessToken credential), w3)))
                       else (Some (accessToken credential), w1)))"

definition hasToken :: "host \<Rightarrow> string \<Rightarrow> world \<Rightarrow> bool" where
  "hasToken h email' w =
     (case secrets w (TOKEN_PREFIX @ email') of
        None \<Rightarrow> False
      | Some stored \<Rightarrow>
          if stored = [] \<or> length stored \<le> 10 then False
          else (case JSON_parse_credential h stored of
                  None \<Rightarrow> False
                | Some credential \<Rightarrow>
                    if now h \<le> expiresAt credential - 5 * 60 * 1000 then True
                    else if truthy (refreshToken credential) then True
                    else False))"

text \<open>
  \<open>captureCurrentToken\<close>: the whole body sits inside \<open>try\<close>; the account comes from the
  status of the host, the argument only decides whether the warning is shown.
\<close>

definition captureCurrentToken_try :: "host \<Rightarrow> string \<Rightarrow> world \<Rightarrow> failure + (bool \<times> world)" where
  "captureCurrentToken_try h email' w =
     (case getAuthStatus h of
        Inl e \<Rightarrow> Inl e
      | Inr None \<Rightarrow> Inr (False, emit (ShowErrorMessage NotLoggedIn) w)
      | Inr (Some authStatus) \<Rightarrow>
          (let currentEmail = map_option toLowerCase (authEmail authStatus) in
           if \<not> truthy currentEmail \<or> \<not> truthy (apiKey authStatus)
           then Inr (False, emit (ShowErrorMessage LoginUnreadable) w)
           else (case (currentEmail, apiKey authStatus) of
                   (Some currentEmail, Some accessToken') \<Rightarrow>
                     (let refreshToken' =
                            (case getRefreshToken h of
                               Inl e \<Rightarrow> None
                             | Inr r \<Rightarrow> if truthy r then r else None);
                          w1 = (if toLowerCase email' \<noteq> currentEmail
                                then emit (ShowWarningMessage (EmailMismatch currentEmail email')) w
                                else w);
                          credential = \<lparr>accessToken = accessToken',
                                          refreshToken = refreshToken',
                                          expiresAt = now h + 55 * 60 * 1000,
                                          email = currentEmail,
                                          createdAt = now h\<rparr>;
                          w2 = store (TOKEN_PREFIX @ currentEmail)
                                 (JSON_stringify_credential h credential) w1
                      in Inr (True, emit (ShowInformationMessage
                                            (TokenCaptured currentEmail (truthy refreshToken'))) w2))
                 | _ \<Rightarrow> Inr (False, emit (ShowErrorMessage LoginUnreadable) w))))"

definition captureCurrentToken :: "host \<Rightarrow> string \<Rightarrow> world \<Rightarrow> bool \<times> world" where
  "captureCurrentToken h email' w =
     catch (captureCurrentToken_try h email' w) (False, emit (ShowErrorMessage CaptureFailed) w)"


text \<open>The requests a call of \<open>refreshAccessToken\<close> sends to the token endpoint.\<close>

definition exchangeEvents :: "StoredCredential \<Rightarrow> event list" where
  "exchangeEvents credential =
     (case refreshToken credential of
        None \<Rightarrow> []
      | Some rt \<Rightarrow> if rt = [] then [] else [TokenExchange rt])"

subsection \<open>An account with a stored record\<close>

text \<open>
  A host with no state database whose token endpoint rejects every request, and a secret
  storage with one value for \<open>a@x.com\<close>; \<open>{credential}\<close> stands for the JSON text of the
  record.
\<close>

definition exampleCredential :: StoredCredential where
  "exampleCredential =
     \<lparr>accessToken = ''AT1'', refreshToken = Some ''RT1'', expiresAt = 4000000,
      email = ''a@x.com'', createdAt = 0\<rparr>"

definition exampleHost :: host where
  "exampleHost =
     \<lparr>dbExists = False, dbItems = None, dbText = None,
      JSON_parse_authStatus = (\<lambda>s. None),
      JSON_parse_credential = (\<lambda>s. if s = ''{credential}'' then Some exampleCredential else None),
      JSON_stringify_credential = (\<lambda>c. ''{credential}''),
      base64 = (\<lambda>s. []), base64_utf8 = (\<lambda>s. []),
      tokenEndpoint = (\<lambda>rt. None),
      now = 1000000\<rparr>"

definition exampleWorld :: "string \<Rightarrow> world" where
  "exampleWorld stored =
     \<lparr>secrets = [TOKEN_PREFIX @ ''a@x.com'' \<mapsto> stored], events = []\<rparr>"

text \<open>The refresh token that \<open>captureCurrentToken\<close> stores.\<close>

definition capturedRefreshToken :: "host \<Rightarrow> string option" where
  "capturedRefreshToken h =
     (case getRefreshToken h of Inl e \<Rightarrow> None | Inr r \<Rightarrow> if truthy r then r else None)"

definition capturedCredential :: "host \<Rightarrow> string \<Rightarrow> string \<Rightarrow> StoredCredential" where
  "capturedCredential h currentEmail accessToken' =
     \<lparr>accessToken = accessToken', refreshToken = capturedRefreshToken h,
      expiresAt = now h + 55 * 60 * 1000, email = currentEmail, createdAt = now h\<rparr>"

text \<open>
  A host logged in as \<open>a@x.com\<close>: the state database holds the status record, written
  \<open>{status}\<close> for its JSON text, and a state value whose base64 text is given. Three
  base64 texts are decoded: \<open>0b\<close>, a tag of wire type 3; \<open>32 80\<close>, field 6 with its length
  cut off; and \<open>32 04 0a 01 41 0b\<close>, field 6 holding field 1 = \<open>A\<close> and then a tag of
  wire type 3.
\<close>

definition loggedInHost :: "string \<Rightarrow> host" where
  "loggedInHost stateValue =
     \<lparr>dbExists = True,
      dbItems = Some [''antigravityAuthStatus'' \<mapsto> ''{status}'', STATE_KEY \<mapsto> stateValue],
      dbText = None,
      JSON_parse_authStatus =
        (\<lambda>s. if s = ''{status}'' then Some \<lparr>authEmail = Some ''a@x.com'', apiKey = Some ''AT1''\<rparr>
             else None),
      JSON_parse_credential = (\<lambda>s. None),
      JSON_stringify_credential = (\<lambda>c. ''{credential}''),
      base64 = (\<lambda>s. if s = ''Cw=='' then [0x0b]
                     else if s = ''MoA='' then [0x32, 0x80]
                     else if s = ''MgQKAUEL'' then [0x32, 0x04, 0x0a, 0x01, 0x41, 0x0b]
                     else []),
      base64_utf8 = (\<lambda>s. []),
      tokenEndpoint = (\<lambda>rt. None),
      now = 1000000\<rparr>"

definition emptyWorld :: world where
  "emptyWorld = \<lparr>secrets = Map.empty, events = []\<rparr>"

section \<open>Account switcher\<close>

text \<open>
  The switcher reaches the state database of the host only through the \<open>sqlite3\<close>
  command, run by \<open>exec\<close>. The database is an opaque value here, and what a command line
  does to it is a parameter: whether it succeeds, and the database afterwards. The state
  keeps every command line that was run.
\<close>

record AccountSnapshot =
  snapshotEmail :: string
  authStatus :: string
  savedAt :: int

datatype notice =
    SnapshotMissing string
  | SwitchDone string
  | SwitchFailed
  | ReloadWindow

record 'db shell =
  dbPathForward :: string
  exec :: "string \<Rightarrow> 'db \<Rightarrow> bool \<times> 'db"
  JSON_parse_snapshots :: "string \<Rightarrow> (string \<Rightarrow> AccountSnapshot option) option"
  userPicksReload :: bool

record 'db switcher =
  snapshotsCache :: "(string \<Rightarrow> AccountSnapshot option) option"
  snapshotSecrets :: "string \<Rightarrow> string option"
  stateDb :: 'db
  commands :: "string list"
  notices :: "notice list"

definition SNAPSHOTS_KEY :: string where
  "SNAPSHOTS_KEY = ''rerevolve_snapshots''"

text \<open>\<open>loadSnapshots\<close>: the cache, else the stored JSON, else the empty object.\<close>

definition loadSnapshots ::
  "'db shell \<Rightarrow> 'db switcher \<Rightarrow> (string \<Rightarrow> AccountSnapshot option) \<times> 'db switcher" where
  "loadSnapshots sh st =
     (case snapshotsCache st of
        Some cache \<Rightarrow> (cache, st)
      | None \<Rightarrow>
          (case snapshotSecrets st SNAPSHOTS_KEY of
             None \<Rightarrow> (Map.empty, st\<lparr>snapshotsCache := Some Map.empty\<rparr>)
           | Some data \<Rightarrow>
               if data = [] then (Map.empty, st\<lparr>snapshotsCache := Some Map.empty\<rparr>)
               else (case JSON_parse_snapshots sh data of
                       None \<Rightarrow> (Map.empty, st\<lparr>snapshotsCache := Some Map.empty\<rparr>)
                     | Some parsed \<Rightarrow> (parsed, st\<lparr>snapshotsCache := Some parsed\<rparr>))))"

text \<open>\<open>authStatus.replace(/'/g, "''")\<close>\<close>

definition escapeQuotes :: "string \<Rightarrow> string" where
  "escapeQuotes s = concat (map (\<lambda>c. if c = CHR 0x27 then [CHR 0x27, CHR 0x27] else [c]) s)"

definition updateCommand :: "string \<Rightarrow> string \<Rightarrow> string" where
  "updateCommand path escapedValue =
     ''sqlite3 '' @ [CHR 0x22] @ path @ [CHR 0x22] @ '' '' @ [CHR 0x22]
       @ ''UPDATE ItemTable SET value='' @ [CHR 0x27] @ escapedValue @ [CHR 0x27]
       @ '' WHERE key='' @ [CHR 0x27] @ ''antigravityAuthStatus'' @ [CHR 0x27] @ [CHR 0x22]"

definition updateAuthStatus :: "'db shell \<Rightarrow> string \<Rightarrow> 'db switcher \<Rightarrow> bool \<times> 'db switcher" where
  "updateAuthStatus sh authStatus' st =
     (let cmd = updateCommand (dbPathForward sh) (escapeQuotes authStatus');
          (ok, db') = exec sh cmd (stateDb st)
      in (ok, st\<lparr>stateDb := db', commands := commands st @ [cmd]\<rparr>))"

definition switchToAccount :: "'db shell \<Rightarrow> string \<Rightarrow> 'db switcher \<Rightarrow> bool \<times> 'db switcher" where
  "switchToAccount sh email' st =
     (let (snapshots, st1) = loadSnapshots sh st in
      case snapshots email' of
        None \<Rightarrow> (False, st1\<lparr>notices := notices st1 @ [SnapshotMissing email']\<rparr>)
      | Some snapshot \<Rightarrow>
          (let (success, st2) = updateAuthStatus sh (authStatus snapshot) st1 in
           if success then
             (True, st2\<lparr>notices := notices st2 @ [SwitchDone email']
                                      @ (if userPicksReload sh then [ReloadWindow] else [])\<rparr>)
           else (False, st2)))"

text \<open>
  A snapshot as \<open>saveSnapshot\<close> stores it: the blob is the JSON text of the status record,
  \<open>{"email":"b@x.com","apiKey":"AT1"}\<close>. The snapshots are read from the secret storage,
  where \<open>{snapshots}\<close> stands for their JSON text.
\<close>

definition jsonBlob :: string where
  "jsonBlob =
     ''{'' @ [CHR 0x22] @ ''email'' @ [CHR 0x22] @ '':'' @ [CHR 0x22] @ ''b@x.com'' @ [CHR 0x22]
       @ '','' @ [CHR 0x22] @ ''apiKey'' @ [CHR 0x22] @ '':'' @ [CHR 0x22] @ ''AT1'' @ [CHR 0x22]
       @ ''}''"

definition jsonSnapshot :: AccountSnapshot where
  "jsonSnapshot = \<lparr>snapshotEmail = ''b@x.com'', authStatus = jsonBlob, savedAt = 0\<rparr>"

text \<open>A shell whose database is the text of the last command run on it.\<close>

definition jsonShell :: "string shell" where
  "jsonShell =
     \<lparr>dbPathForward = ''C:/state.vscdb'',
      exec = (\<lambda>cmd db. (True, cmd)),
      JSON_parse_snapshots =
        (\<lambda>s. if s = ''{snapshots}'' then Some [''b@x.com'' \<mapsto> jsonSnapshot] else None),
      userPicksReload = False\<rparr>"

definition jsonSwitcher :: "string switcher" where
  "jsonSwitcher =
     \<lparr>snapshotsCache = None,
      snapshotSecrets = [SNAPSHOTS_KEY \<mapsto> ''{snapshots}''],
      stateDb = ''untouched'',
      commands = [],
      notices = []\<rparr>"

subsection \<open>Texts to scan\<close>

text \<open>
  The scenario of the byte scan: two bearer tokens, at offsets 100 and 500 of the text,
  with blanks before and between them.
\<close>

definition tokenA :: string where
  "tokenA = ''ya29.'' @ replicate 100 CHR ''A''"

definition tokenB :: string where
  "tokenB = ''ya29.'' @ replicate 100 CHR ''B''"

definition scanContent :: string where
  "scanContent = replicate 100 CHR 0x20 @ tokenA @ replicate 295 CHR 0x20 @ tokenB"

text \<open>A short text with two refresh tokens, at offsets 0 and 40, and one bearer token.\<close>

definition refreshContent :: string where
  "refreshContent =
     ''1//'' @ replicate 36 CHR ''r'' @ '' '' @ ''1//'' @ replicate 36 CHR ''s'' @ '' '' @ tokenA"

definition scanHost :: "string \<Rightarrow> host" where
  "scanHost content = exampleHost\<lparr>dbExists := True, dbText := Some content\<rparr>"

section \<open>Properties of the decoder\<close>

subsection \<open>Bytes and varints\<close>

lemma byte_low: "unat ((w::8 word) AND 0x7f) = unat w mod 128"
proof -
  have "(0x7f::8 word) = mask 7" by (simp add: mask_eq_exp_minus_1)
  then have "unat (w AND 0x7f) = unat (take_bit 7 w)" by (simp only: take_bit_eq_mask)
  also have "\<dots> = take_bit 7 (unat w)" by (simp only: unsigned_take_bit_eq)
  also have "\<dots> = unat w mod 128" by (simp add: take_bit_eq_mod)
  finally show ?thesis .
qed

lemma byte_high: "((w::8 word) AND 0x80 = 0) = (unat w < 128)"
proof -
  have "(0x80::8 word) = 2 ^ 7" by simp
  then have "(w AND 0x80 = 0) = (\<not> bit w 7)"
    by (simp only: and_exp_eq_0_iff_not_bit)
  also have "\<dots> = (\<not> bit (unat w) 7)" by (simp add: bit_unsigned_iff)
  also have "\<dots> = (unat w < 128)"
  proof (cases "unat w < 128")
    case True
    then have "unat w div 128 = 0" by simp
    with True show ?thesis by (simp add: bit_iff_odd)
  next
    case False
    have "unat w < 256" using unsigned_less [of w] by simp
    with False have "unat w div 128 = 1" by linarith
    with False show ?thesis by (simp add: bit_iff_odd)
  qed
  finally show ?thesis .
qed

lemma unat_byte: "n < 256 \<Longrightarrow> unat (word_of_nat n :: 8 word) = n"
  by (simp add: unat_of_nat)

lemma encodeVarint_nonempty: "encodeVarint n \<noteq> []"
  by (subst encodeVarint.simps) simp

lemma readVarint_loop_encode:
  "readVarint_loop (pre @ encodeVarint n @ rest) result shift (length pre)
     = Inr (result + n * 2 ^ shift, length pre + length (encodeVarint n))"
proof (induction n arbitrary: pre result shift rule: encodeVarint.induct)
  case (1 n)
  show ?case
  proof (cases "n < 128")
    case True
    then have b: "unat (word_of_nat n :: 8 word) = n" by (simp add: unat_of_nat)
    from True have enc: "encodeVarint n = [word_of_nat n]"
      by (subst encodeVarint.simps) simp
    show ?thesis
      by (subst readVarint_loop.simps) (simp add: enc Let_def byte_low byte_high b True)
  next
    case False
    define b :: byte where "b = word_of_nat (n mod 128 + 128)"
    have "n mod 128 + 128 < 256" by simp
    then have ub: "unat b = n mod 128 + 128" unfolding b_def by (simp only: unat_byte)
    from False have enc: "encodeVarint n = b # encodeVarint (n div 128)"
      unfolding b_def by (subst encodeVarint.simps) simp
    have IH: "readVarint_loop ((pre @ [b]) @ encodeVarint (n div 128) @ rest)
                (result + (n mod 128) * 2 ^ shift) (shift + 7) (length (pre @ [b]))
              = Inr (result + (n mod 128) * 2 ^ shift + (n div 128) * 2 ^ (shift + 7),
                     length (pre @ [b]) + length (encodeVarint (n div 128)))"
      by (rule "1.IH" [OF False])
    have arith: "(n mod 128) * 2 ^ shift + (n div 128) * 2 ^ (shift + 7) = n * 2 ^ shift"
    proof -
      have "(2::nat) ^ (shift + 7) = 128 * 2 ^ shift" by (simp add: power_add)
      then have "(n mod 128) * 2 ^ shift + (n div 128) * 2 ^ (shift + 7)
                 = (n mod 128 + n div 128 * 128) * 2 ^ shift"
        by (simp only: add_mult_distrib mult.assoc)
      also have "n mod 128 + n div 128 * 128 = n" by simp
      finally show ?thesis .
    qed
    have low: "unat (b AND 0x7f) = n mod 128"
      by (simp add: byte_low ub)
    have high: "b AND 0x80 \<noteq> 0"
      by (simp add: byte_high ub)
    have "readVarint_loop (pre @ encodeVarint n @ rest) result shift (length pre)
          = readVarint_loop (pre @ encodeVarint n @ rest)
              (result + (n mod 128) * 2 ^ shift) (shift + 7) (length pre + 1)"
    proof -
      have nth: "(pre @ encodeVarint n @ rest) ! length pre = b" by (simp add: enc)
      have lt: "length pre < length (pre @ encodeVarint n @ rest)" by (simp add: enc)
      show ?thesis
        by (subst readVarint_loop.simps) (simp only: lt nth Let_def low high if_True if_False)
    qed
    also have "\<dots> = Inr (result + (n mod 128) * 2 ^ shift + (n div 128) * 2 ^ (shift + 7),
                     length (pre @ [b]) + length (encodeVarint (n div 128)))"
      using IH by (simp add: enc)
    also have "\<dots> = Inr (result + n * 2 ^ shift, length pre + length (encodeVarint n))"
    proof -
      have "length (pre @ [b]) + length (encodeVarint (n div 128))
            = length pre + length (encodeVarint n)" by (simp add: enc)
      moreover have "result + (n mod 128) * 2 ^ shift + (n div 128) * 2 ^ (shift + 7)
            = result + n * 2 ^ shift" using arith by linarith
      ultimately show ?thesis by (simp only:)
    qed
    finally show ?thesis .
  qed
qed

lemma readVarint_encode:
  "readVarint (pre @ encodeVarint n @ rest) (length pre)
     = Inr (n, length pre + length (encodeVarint n))"
  unfolding readVarint_def using readVarint_loop_encode [of pre n rest 0 0] by simp

subsection \<open>Tags\<close>

lemma toInt32_small: "k < 2 ^ 31 \<Longrightarrow> toInt32 k = int k"
proof -
  assume k: "k < 2 ^ 31"
  then have "int k < 2 ^ 31" by (metis of_nat_less_iff of_nat_numeral of_nat_power)
  have "toInt32 k = signed_take_bit 31 (int k)"
    by (simp add: toInt32_def signed_of_nat)
  also have "\<dots> = int k"
    using \<open>int k < 2 ^ 31\<close> by (simp add: signed_take_bit_int_eq_self)
  finally show ?thesis .
qed

lemma toInt32_mod8: "toInt32 k mod 8 = int (k mod 8)"
proof -
  have "toInt32 k mod 8 = take_bit 3 (toInt32 k)" by (simp add: take_bit_eq_mod)
  also have "\<dots> = take_bit 3 (signed_take_bit 31 (int k))"
    by (simp add: toInt32_def signed_of_nat)
  also have "\<dots> = take_bit 3 (int k)"
    by (simp add: take_bit_signed_take_bit)
  also have "\<dots> = int (k mod 8)" by (simp add: take_bit_eq_mod zmod_int)
  finally show ?thesis .
qed

lemma wireTypeOf_mod: "wireTypeOf tag = int (tag mod 8)"
proof -
  have "(7::int) = mask 3" by (simp add: mask_eq_exp_minus_1)
  then have "wireTypeOf tag = take_bit 3 (toInt32 tag)"
    unfolding wireTypeOf_def by (simp only: take_bit_eq_mask)
  then show ?thesis using toInt32_mod8 [of tag] by (simp add: take_bit_eq_mod)
qed

lemma wireTypeOf_tag: "wt < 8 \<Longrightarrow> wireTypeOf (n * 8 + wt) = int wt"
  by (simp add: wireTypeOf_mod)

lemma fieldNumOf_tag: "wt < 8 \<Longrightarrow> n < 2 ^ 28 \<Longrightarrow> fieldNumOf (n * 8 + wt) = int n"
proof -
  assume wt: "wt < 8" and n: "n < 2 ^ 28"
  then have "n * 8 + wt < 2 ^ 31" by simp
  then have "toInt32 (n * 8 + wt) = int (n * 8 + wt)" by (rule toInt32_small)
  then have "fieldNumOf (n * 8 + wt) = int (n * 8 + wt) div 8"
    by (simp add: fieldNumOf_def drop_bit_eq_div)
  also have "\<dots> = int ((n * 8 + wt) div 8)" by (simp only: zdiv_int) simp
  also have "\<dots> = int n" using wt by simp
  finally show ?thesis .
qed

subsection \<open>Fields and messages\<close>

lemma wireType_lt8: "wireType f < 8"
  by (cases f) simp_all

lemma wireTypeOf_tagOf: "wireTypeOf (tagOf f) = int (wireType f)"
  unfolding tagOf_def by (rule wireTypeOf_tag [OF wireType_lt8])

lemma fieldNumOf_tagOf: "fieldNumber f < 2 ^ 28 \<Longrightarrow> fieldNumOf (tagOf f) = int (fieldNumber f)"
  unfolding tagOf_def by (rule fieldNumOf_tag [OF wireType_lt8])

lemma readVarint_tag:
  "readVarint (pre @ encodeField f @ rest) (length pre)
     = Inr (tagOf f, length pre + length (encodeVarint (tagOf f)))"
  using readVarint_encode [of pre "tagOf f" "encodeValue f @ rest"]
  by (simp add: encodeField_def)

lemma skipField_value:
  assumes "wellFormed f"
  shows "skipField (pre @ encodeValue f @ rest) (length pre) (int (wireType f))
           = Inr (length pre + length (encodeValue f))"
proof (cases f)
  case (VarintField n v)
  then show ?thesis
    using readVarint_encode [of pre v rest] by (simp add: skipField_def)
next
  case (Fixed64Field n bs)
  with assms show ?thesis by (simp add: skipField_def)
next
  case (LenField n bs)
  then show ?thesis
    using readVarint_encode [of pre "length bs" "bs @ rest"] by (simp add: skipField_def)
next
  case (Fixed32Field n bs)
  with assms show ?thesis by (simp add: skipField_def)
qed

lemma skipField_in_field:
  assumes "wellFormed f"
  shows "skipField (pre @ encodeField f @ rest) (length pre + length (encodeVarint (tagOf f)))
           (int (wireType f))
         = Inr (length pre + length (encodeField f))"
  using skipField_value [OF assms, of "pre @ encodeVarint (tagOf f)" rest]
  by (simp add: encodeField_def add.assoc)

lemma encodeField_nonempty: "encodeField f \<noteq> []"
  by (simp add: encodeField_def encodeVarint_nonempty)

lemma encodeMessage_Cons: "encodeMessage (f # fs) = encodeField f @ encodeMessage fs"
  by (simp add: encodeMessage_def)

lemma encodeMessage_append: "encodeMessage (fs @ gs) = encodeMessage fs @ encodeMessage gs"
  by (simp add: encodeMessage_def)

lemma scanFields_encode:
  "\<forall>f \<in> set fs. wellFormed f \<Longrightarrow>
     scanFields (pre @ encodeMessage fs) (length pre) = Inr (length pre + length (encodeMessage fs))"
proof (induction fs arbitrary: pre)
  case Nil
  show ?case by (subst scanFields.simps) (simp add: encodeMessage_def)
next
  case (Cons f fs)
  from Cons.prems have wf: "wellFormed f" and rest: "\<forall>g \<in> set fs. wellFormed g" by simp_all
  let ?data = "pre @ encodeMessage (f # fs)"
  have data: "?data = pre @ encodeField f @ encodeMessage fs"
    by (simp add: encodeMessage_Cons)
  have inside: "length pre < length ?data"
    using encodeField_nonempty [of f] by (simp add: data)
  have tag: "readVarint ?data (length pre)
               = Inr (tagOf f, length pre + length (encodeVarint (tagOf f)))"
    unfolding data by (rule readVarint_tag)
  have skip: "skipField ?data (length pre + length (encodeVarint (tagOf f))) (int (wireType f))
               = Inr (length pre + length (encodeField f))"
    unfolding data by (rule skipField_in_field [OF wf])
  have "scanFields ?data (length pre) = scanFields ?data (length pre + length (encodeField f))"
    by (subst scanFields.simps) (simp only: inside tag skip wireTypeOf_tagOf if_True sum.case prod.case)
  also have "\<dots> = scanFields ((pre @ encodeField f) @ encodeMessage fs) (length (pre @ encodeField f))"
    by (simp add: data)
  also have "\<dots> = Inr (length (pre @ encodeField f) + length (encodeMessage fs))"
    by (rule Cons.IH [OF rest])
  finally show ?case by (simp add: encodeMessage_Cons)
qed


lemma wellFormed_fieldNumber: "wellFormed f \<Longrightarrow> fieldNumber f < 2 ^ 29"
  by (cases f) simp_all

lemma toInt32_wide:
  assumes "2 ^ 31 \<le> k" and "k < 2 ^ 32"
  shows "toInt32 k = int k - 2 ^ 32"
proof -
  from assms have lo: "(2::int) ^ 31 \<le> int k" and hi: "int k < 2 ^ 32"
    by (metis of_nat_le_iff of_nat_numeral of_nat_power, metis of_nat_less_iff of_nat_numeral of_nat_power)
  have "toInt32 k = signed_take_bit 31 (int k)"
    by (simp add: toInt32_def signed_of_nat)
  also have "\<dots> = take_bit 32 (int k + 2 ^ 31) - 2 ^ 31"
    by (simp add: signed_take_bit_eq_take_bit_shift)
  also have "take_bit 32 (int k + 2 ^ 31) = (int k + 2 ^ 31) mod 2 ^ 32"
    by (simp add: take_bit_eq_mod)
  also have "(int k + 2 ^ 31) mod 2 ^ 32 = int k + 2 ^ 31 - 2 ^ 32"
  proof -
    have "(int k + 2 ^ 31 - 2 ^ 32) mod 2 ^ 32 = int k + 2 ^ 31 - 2 ^ 32"
      using lo hi by (intro mod_pos_pos_trivial) simp_all
    moreover have "(int k + 2 ^ 31 - 2 ^ 32) mod 2 ^ 32 = (int k + 2 ^ 31) mod 2 ^ 32"
      by (metis mod_diff_right_eq mod_self diff_zero)
    ultimately show ?thesis by simp
  qed
  finally show ?thesis by simp
qed

lemma fieldNumOf_tagOf_negative:
  assumes "wellFormed f" and "2 ^ 28 \<le> fieldNumber f"
  shows "fieldNumOf (tagOf f) < 0"
proof -
  have wt: "wireType f < 8" by (rule wireType_lt8)
  from wellFormed_fieldNumber [OF assms(1)] have hi: "fieldNumber f < 2 ^ 29" .
  from assms(2) have "2 ^ 31 \<le> tagOf f" by (simp add: tagOf_def)
  moreover from hi wt have "tagOf f < 2 ^ 32" by (simp add: tagOf_def)
  ultimately have "toInt32 (tagOf f) = int (tagOf f) - 2 ^ 32" by (rule toInt32_wide)
  moreover from hi wt have "int (tagOf f) < 2 ^ 32" by (simp add: tagOf_def)
  ultimately have "toInt32 (tagOf f) < 0" by simp
  then show ?thesis by (simp add: fieldNumOf_def drop_bit_eq_div)
qed

lemma fieldNumOf_tagOf_iff:
  assumes "wellFormed f" and "0 \<le> t" and "t < 2 ^ 28"
  shows "(fieldNumOf (tagOf f) = t) = (int (fieldNumber f) = t)"
proof (cases "fieldNumber f < 2 ^ 28")
  case True
  then show ?thesis by (simp add: fieldNumOf_tagOf)
next
  case False
  then have wide: "2 ^ 28 \<le> fieldNumber f" by simp
  from fieldNumOf_tagOf_negative [OF assms(1) wide] assms(2)
  have "fieldNumOf (tagOf f) \<noteq> t" by simp
  moreover from wide have "(2::int) ^ 28 \<le> int (fieldNumber f)"
    by (metis of_nat_le_iff of_nat_numeral of_nat_power)
  with assms(3) have "int (fieldNumber f) \<noteq> t" by simp
  ultimately show ?thesis by simp
qed

lemma findField_loop_encode:
  "\<forall>f \<in> set fs. wellFormed f
       \<and> (fieldNumOf (tagOf f) = target) = (int (fieldNumber f) = target) \<Longrightarrow>
     findField_loop (pre @ encodeMessage fs) target (length pre) = Inr (firstLenField fs target)"
proof (induction fs arbitrary: pre)
  case Nil
  show ?case by (subst findField_loop.simps) (simp add: encodeMessage_def)
next
  case (Cons f fs)
  from Cons.prems have wf: "wellFormed f"
    and fnum: "(fieldNumOf (tagOf f) = target) = (int (fieldNumber f) = target)"
    and rest: "\<forall>g \<in> set fs. wellFormed g
                 \<and> (fieldNumOf (tagOf g) = target) = (int (fieldNumber g) = target)"
    by simp_all
  let ?data = "pre @ encodeMessage (f # fs)"
  let ?p = "length pre + length (encodeVarint (tagOf f))"
  have data: "?data = pre @ encodeField f @ encodeMessage fs"
    by (simp add: encodeMessage_Cons)
  have inside: "length pre < length ?data"
    using encodeField_nonempty [of f] by (simp add: data)
  have tag: "readVarint ?data (length pre) = Inr (tagOf f, ?p)"
    unfolding data by (rule readVarint_tag)
  have skip: "skipField ?data ?p (int (wireType f)) = Inr (length pre + length (encodeField f))"
    unfolding data by (rule skipField_in_field [OF wf])
  show ?case
  proof (cases "isTarget target f")
    case True
    then obtain bs where f: "f = LenField (fieldNumber f) bs" and eq: "int (fieldNumber f) = target"
      by (cases f) simp_all
    have val: "encodeValue f = encodeVarint (length bs) @ bs" by (subst f) simp
    have wt: "wireType f = 2" by (subst f) simp
    have len: "readVarint ?data ?p = Inr (length bs, ?p + length (encodeVarint (length bs)))"
      using readVarint_encode [of "pre @ encodeVarint (tagOf f)" "length bs" "bs @ encodeMessage fs"]
      by (simp add: data encodeField_def val)
    have sub: "subarray ?data (?p + length (encodeVarint (length bs)))
                 (?p + length (encodeVarint (length bs)) + length bs) = bs"
      by (simp add: subarray_def data encodeField_def val)
    have "findField_loop ?data target (length pre) = Inr (Some bs)"
      by (subst findField_loop.simps)
         (simp only: inside tag fnum eq wireTypeOf_tagOf wt len sub if_True sum.case prod.case simp_thms of_nat_numeral)
    moreover have "firstLenField (f # fs) target = Some bs"
      by (subst f) (simp add: eq)
    ultimately show ?thesis by simp
  next
    case False
    then have nomatch: "(int (fieldNumber f) = target \<and> int (wireType f) = 2) = False"
      by (cases f) simp_all
    have "findField_loop ?data target (length pre)
            = findField_loop ?data target (length pre + length (encodeField f))"
      by (subst findField_loop.simps)
         (simp only: inside tag fnum nomatch skip wireTypeOf_tagOf if_True if_False sum.case prod.case)
    also have "\<dots> = findField_loop ((pre @ encodeField f) @ encodeMessage fs) target
                        (length (pre @ encodeField f))"
      by (simp add: data)
    also have "\<dots> = Inr (firstLenField fs target)"
      by (rule Cons.IH [OF rest])
    also have "firstLenField fs target = firstLenField (f # fs) target"
      using False by (cases f) simp_all
    finally show ?thesis .
  qed
qed

subsection \<open>Decoding an encoded message\<close>

lemma toString_fromString: "toString (fromString s) = s"
proof -
  have "char_of (unat (word_of_nat (of_char c) :: byte)) = c" for c :: char
  proof -
    have "unat (word_of_nat (of_char c) :: byte) = of_char c mod 256"
      by (simp add: unat_of_nat)
    then show ?thesis by (simp only: char_of_mod_256 char_of_char)
  qed
  then show ?thesis by (simp add: toString_def fromString_def comp_def)
qed

lemma parseOAuthTokenInfo_loop_end:
  "parseOAuthTokenInfo_loop data (length data) info = info"
  by (subst parseOAuthTokenInfo_loop.simps) simp

lemma parseOAuthTokenInfo_loop_prefix:
  "\<forall>f \<in> set fs. wellFormed f \<Longrightarrow>
     parseOAuthTokenInfo_loop (pre @ encodeMessage fs @ rest) (length pre) info
       = parseOAuthTokenInfo_loop (pre @ encodeMessage fs @ rest)
           (length pre + length (encodeMessage fs)) (foldl noteField info fs)"
proof (induction fs arbitrary: pre info)
  case Nil
  show ?case by (simp add: encodeMessage_def)
next
  case (Cons f fs)
  from Cons.prems have wf: "wellFormed f" and others: "\<forall>g \<in> set fs. wellFormed g" by simp_all
  let ?data = "pre @ encodeMessage (f # fs) @ rest"
  let ?p = "length pre + length (encodeVarint (tagOf f))"
  have data: "?data = pre @ encodeField f @ encodeMessage fs @ rest"
    by (simp add: encodeMessage_Cons)
  have inside: "length pre < length ?data"
    using encodeField_nonempty [of f] by (simp add: data)
  have tag: "readVarint ?data (length pre) = Inr (tagOf f, ?p)"
    unfolding data by (rule readVarint_tag)
  have skip: "skipField ?data ?p (int (wireType f)) = Inr (length pre + length (encodeField f))"
    unfolding data by (rule skipField_in_field [OF wf])
  have f1: "(fieldNumOf (tagOf f) = 1) = (fieldNumber f = 1)"
    using fieldNumOf_tagOf_iff [OF wf, of 1] by simp
  have f3: "(fieldNumOf (tagOf f) = 3) = (fieldNumber f = 3)"
    using fieldNumOf_tagOf_iff [OF wf, of 3] by simp
  have next_step: "parseOAuthTokenInfo_loop ?data (length pre + length (encodeField f)) info'
                     = parseOAuthTokenInfo_loop ?data
                         (length pre + length (encodeMessage (f # fs))) (foldl noteField info' fs)"
    for info'
  proof -
    have "parseOAuthTokenInfo_loop ?data (length pre + length (encodeField f)) info'
          = parseOAuthTokenInfo_loop ((pre @ encodeField f) @ encodeMessage fs @ rest)
              (length (pre @ encodeField f)) info'"
      by (simp add: data)
    also have "\<dots> = parseOAuthTokenInfo_loop ((pre @ encodeField f) @ encodeMessage fs @ rest)
                 (length (pre @ encodeField f) + length (encodeMessage fs))
                 (foldl noteField info' fs)"
      by (rule Cons.IH [OF others])
    finally show ?thesis by (simp add: data encodeMessage_Cons add.assoc)
  qed
  show ?case
  proof (cases f)
    case (LenField n bs)
    have val: "encodeValue f = encodeVarint (length bs) @ bs" by (simp add: LenField)
    have wt: "wireType f = 2" by (simp add: LenField)
    have n: "fieldNumber f = n" by (simp add: LenField)
    have len: "readVarint ?data ?p = Inr (length bs, ?p + length (encodeVarint (length bs)))"
      using readVarint_encode [of "pre @ encodeVarint (tagOf f)" "length bs"
          "bs @ encodeMessage fs @ rest"]
      by (simp add: data encodeField_def val)
    have stop: "?p + length (encodeVarint (length bs)) + length bs
                  = length pre + length (encodeField f)"
      by (simp add: encodeField_def val)
    have sub: "subarray ?data (?p + length (encodeVarint (length bs)))
                 (length pre + length (encodeField f)) = bs"
      unfolding stop [symmetric] by (simp add: subarray_def data encodeField_def val)
    have "parseOAuthTokenInfo_loop ?data (length pre) info
          = parseOAuthTokenInfo_loop ?data (length pre + length (encodeField f))
              (if n = 1 then info\<lparr>accessToken_opt := Some (toString bs)\<rparr>
               else if n = 3 then info\<lparr>refreshToken_opt := Some (toString bs)\<rparr>
               else info)"
      by (subst parseOAuthTokenInfo_loop.simps)
         (simp only: inside tag f1 f3 n wireTypeOf_tagOf wt len sub stop Let_def
            if_True sum.case prod.case simp_thms of_nat_numeral)
    also have "\<dots> = parseOAuthTokenInfo_loop ?data (length pre + length (encodeMessage (f # fs)))
                        (foldl noteField (noteField info f) fs)"
      by (simp only: next_step) (simp add: LenField)
    finally show ?thesis by simp
  next
    case (VarintField n v)
    then have wt: "int (wireType f) \<noteq> 2" by simp
    have "parseOAuthTokenInfo_loop ?data (length pre) info
          = parseOAuthTokenInfo_loop ?data (length pre + length (encodeField f)) info"
      by (subst parseOAuthTokenInfo_loop.simps)
         (simp only: inside tag wireTypeOf_tagOf wt skip if_True if_False sum.case prod.case)
    then show ?thesis by (simp only: next_step) (simp add: VarintField)
  next
    case (Fixed64Field n bs)
    then have wt: "int (wireType f) \<noteq> 2" by simp
    have "parseOAuthTokenInfo_loop ?data (length pre) info
          = parseOAuthTokenInfo_loop ?data (length pre + length (encodeField f)) info"
      by (subst parseOAuthTokenInfo_loop.simps)
         (simp only: inside tag wireTypeOf_tagOf wt skip if_True if_False sum.case prod.case)
    then show ?thesis by (simp only: next_step) (simp add: Fixed64Field)
  next
    case (Fixed32Field n bs)
    then have wt: "int (wireType f) \<noteq> 2" by simp
    have "parseOAuthTokenInfo_loop ?data (length pre) info
          = parseOAuthTokenInfo_loop ?data (length pre + length (encodeField f)) info"
      by (subst parseOAuthTokenInfo_loop.simps)
         (simp only: inside tag wireTypeOf_tagOf wt skip if_True if_False sum.case prod.case)
    then show ?thesis by (simp only: next_step) (simp add: Fixed32Field)
  qed
qed




lemma findField_encode:
  assumes "\<forall>f \<in> set fs. wellFormed f" and "0 \<le> target" and "target < 2 ^ 28"
  shows "findField (encodeMessage fs) target = Inr (firstLenField fs target)"
proof -
  from assms have "\<forall>f \<in> set fs. wellFormed f
       \<and> (fieldNumOf (tagOf f) = target) = (int (fieldNumber f) = target)"
    by (simp add: fieldNumOf_tagOf_iff)
  from findField_loop_encode [OF this, of "[]"] show ?thesis
    by (simp add: findField_def)
qed

lemma parseOAuthTokenInfo_encode:
  assumes "\<forall>f \<in> set fs. wellFormed f"
  shows "parseOAuthTokenInfo (encodeMessage fs @ rest)
           = parseOAuthTokenInfo_loop (encodeMessage fs @ rest) (length (encodeMessage fs))
               (foldl noteField \<lparr>accessToken_opt = None, refreshToken_opt = None\<rparr> fs)"
  unfolding parseOAuthTokenInfo_def
  using parseOAuthTokenInfo_loop_prefix [OF assms, of "[]" rest] by simp

lemma findField_loop_end: "findField_loop data target (length data) = Inr None"
  by (subst findField_loop.simps) simp

lemma findField_loop_skip:
  assumes "wellFormed f" and "\<not> (fieldNumOf (tagOf f) = target \<and> wireType f = 2)"
  shows "findField_loop (pre @ encodeField f @ rest) target (length pre)
           = findField_loop (pre @ encodeField f @ rest) target (length pre + length (encodeField f))"
proof -
  let ?data = "pre @ encodeField f @ rest"
  have inside: "length pre < length ?data"
    using encodeField_nonempty [of f] by simp
  have tag: "readVarint ?data (length pre)
               = Inr (tagOf f, length pre + length (encodeVarint (tagOf f)))"
    by (rule readVarint_tag)
  have skip: "skipField ?data (length pre + length (encodeVarint (tagOf f))) (int (wireType f))
               = Inr (length pre + length (encodeField f))"
    by (rule skipField_in_field [OF assms(1)])
  from assms(2) have nomatch: "(fieldNumOf (tagOf f) = target \<and> int (wireType f) = 2) = False"
    by simp
  show ?thesis
    by (subst findField_loop.simps)
       (simp only: inside tag nomatch skip wireTypeOf_tagOf if_True if_False sum.case prod.case)
qed

lemma fieldNumOf_wide: "fieldNumOf (tagOf (LenField (2 ^ 28) bs)) = - (2 ^ 28)"
  by (simp add: tagOf_def fieldNumOf_def toInt32_def)

lemma firstLenField_insert:
  "\<forall>f \<in> set xs. \<not> isTarget (int n) f \<Longrightarrow> firstLenField (xs @ LenField n p # ys) (int n) = Some p"
proof (induction xs)
  case Nil
  show ?case by simp
next
  case (Cons x xs)
  then show ?case by (cases x) simp_all
qed

section \<open>Properties of the credential store\<close>

lemma truthy_Some: "truthy (Some v) = (v \<noteq> [])"
  by (simp add: truthy_def)

lemma truthy_None: "truthy None = False"
  by (simp add: truthy_def)

lemma refreshAccessToken_fails:
  assumes "\<forall>rt. refreshToken credential = Some rt \<longrightarrow> tokenEndpoint h rt = None"
  shows "refreshAccessToken h credential w
           = (None, w\<lparr>events := events w @ RefreshCalled # exchangeEvents credential\<rparr>)"
  using assms
  by (cases "refreshToken credential")
     (auto simp: refreshAccessToken_def truthy_def emit_def exchangeEvents_def Let_def)

lemma refreshAccessToken_events:
  "\<exists>evs. events (snd (refreshAccessToken h credential w)) = events w @ RefreshCalled # evs"
  by (auto simp: refreshAccessToken_def truthy_def emit_def Let_def split: option.splits)

lemma tryAutoRecovery_events:
  "\<exists>evs. events (snd (tryAutoRecovery h e w)) = events w @ RecoveryCalled e # evs"
  by (auto simp: tryAutoRecovery_def emit_def store_def Let_def split: option.splits sum.splits)

lemma tryAutoRecovery_fails:
  assumes "extractTokensFromDb h = Inr None"
  shows "tryAutoRecovery h e w = (False, w\<lparr>events := events w @ [RecoveryCalled e]\<rparr>)"
  using assms by (simp add: tryAutoRecovery_def emit_def)

lemma toLowerCase_Nil: "(toLowerCase s = []) = (s = [])"
  by (simp add: toLowerCase_def)

lemma loggedIn_status:
  "getAuthStatus (loggedInHost sv) = Inr (Some \<lparr>authEmail = Some ''a@x.com'', apiKey = Some ''AT1''\<rparr>)"
  by (simp add: getAuthStatus_def getAuthStatus_try_def catch_def tryCatch_def loggedInHost_def STATE_KEY_def)

lemma loggedIn_refresh: "capturedRefreshToken (loggedInHost sv) = None"
  by (simp add: capturedRefreshToken_def getRefreshToken_def getRefreshToken_try_def catch_def tryCatch_def
      loggedInHost_def truthy_def STATE_KEY_def)

lemma lower_a: "toLowerCase ''a@x.com'' = ''a@x.com''"
  by code_simp

lemma lower_b: "toLowerCase ''b@x.com'' = ''b@x.com''"
  by code_simp

lemma lower_A: "toLowerCase ''A@X.com'' = ''a@x.com''"
  by code_simp









section \<open>Properties of the account switcher\<close>

lemma loadSnapshots_db:
  "stateDb (snd (loadSnapshots sh st)) = stateDb st
   \<and> commands (snd (loadSnapshots sh st)) = commands st"
  by (simp add: loadSnapshots_def split: option.splits)

lemma switchToAccount_commands:
  "(fst (loadSnapshots sh st) e = None \<longrightarrow>
      fst (switchToAccount sh e st) = False
      \<and> stateDb (snd (switchToAccount sh e st)) = stateDb st
      \<and> commands (snd (switchToAccount sh e st)) = commands st)
   \<and> (\<forall>snapshot. fst (loadSnapshots sh st) e = Some snapshot \<longrightarrow>
         commands (snd (switchToAccount sh e st))
           = commands st @ [updateCommand (dbPathForward sh) (escapeQuotes (authStatus snapshot))]
         \<and> (fst (switchToAccount sh e st), stateDb (snd (switchToAccount sh e st)))
           = exec sh (updateCommand (dbPathForward sh) (escapeQuotes (authStatus snapshot)))
               (stateDb st))"
proof (intro conjI allI impI)
  obtain snapshots st1 where l: "loadSnapshots sh st = (snapshots, st1)"
    by (cases "loadSnapshots sh st")
  from loadSnapshots_db [of sh st] l
  have db: "stateDb st1 = stateDb st" and cmds: "commands st1 = commands st" by simp_all
  {
    assume "fst (loadSnapshots sh st) e = None"
    with l have none: "snapshots e = None" by simp
    have sw: "switchToAccount sh e st = (False, st1\<lparr>notices := notices st1 @ [SnapshotMissing e]\<rparr>)"
      by (simp add: switchToAccount_def l none)
    show "fst (switchToAccount sh e st) = False" by (simp add: sw)
    show "stateDb (snd (switchToAccount sh e st)) = stateDb st" by (simp add: sw db)
    show "commands (snd (switchToAccount sh e st)) = commands st" by (simp add: sw cmds)
  }
  fix snapshot
  assume "fst (loadSnapshots sh st) e = Some snapshot"
  with l have some: "snapshots e = Some snapshot" by simp
  let ?cmd = "updateCommand (dbPathForward sh) (escapeQuotes (authStatus snapshot))"
  obtain ok db' where x: "exec sh ?cmd (stateDb st) = (ok, db')"
    by (cases "exec sh ?cmd (stateDb st)")
  have up: "updateAuthStatus sh (authStatus snapshot) st1
              = (ok, st1\<lparr>stateDb := db', commands := commands st @ [?cmd]\<rparr>)"
    by (simp add: updateAuthStatus_def Let_def db cmds x)
  have sw: "switchToAccount sh e st =
      (if ok then
         (True, st1\<lparr>stateDb := db', commands := commands st @ [?cmd],
                    notices := notices st1 @ [SwitchDone e]
                                 @ (if userPicksReload sh then [ReloadWindow] else [])\<rparr>)
       else (False, st1\<lparr>stateDb := db', commands := commands st @ [?cmd]\<rparr>))"
    by (simp add: switchToAccount_def l some up)
  show "commands (snd (switchToAccount sh e st)) = commands st @ [?cmd]"
    by (simp add: sw)
  show "(fst (switchToAccount sh e st), stateDb (snd (switchToAccount sh e st)))
          = exec sh ?cmd (stateDb st)"
    by (simp add: sw x)
qed

lemma jsonSwitcher_snapshots:
  "fst (loadSnapshots jsonShell jsonSwitcher) = [''b@x.com'' \<mapsto> jsonSnapshot]"
  by (simp add: loadSnapshots_def jsonSwitcher_def jsonShell_def)

lemma jsonBlob_escaped: "escapeQuotes jsonBlob = jsonBlob"
  by (simp add: escapeQuotes_def jsonBlob_def)

section \<open>Properties of the byte scan\<close>

lemma sorted_le_last:
  "sorted xs \<Longrightarrow> x \<in> set xs \<Longrightarrow> x \<le> last (xs :: nat list)"
proof (induction xs)
  case Nil
  then show ?case by simp
next
  case (Cons a xs)
  show ?case
  proof (cases "xs = []")
    case True
    with Cons.prems show ?thesis by simp
  next
    case False
    then have "last xs \<in> set xs" by simp
    with Cons.prems have "a \<le> last xs" by auto
    moreover have "x \<le> last xs" if "x \<in> set xs" using Cons.IH Cons.prems that by simp
    ultimately show ?thesis using Cons.prems False by auto
  qed
qed

lemma lastByIndex_max:
  assumes "xs \<noteq> []"
  shows "\<exists>i. (i, lastByIndex xs) \<in> set xs \<and> (\<forall>(j, t) \<in> set xs. j \<le> i)"
proof -
  let ?ys = "sort_key fst xs"
  from assms have ne: "?ys \<noteq> []" by (metis length_0_conv length_sort)
  then have mem: "last ?ys \<in> set xs" using last_in_set [OF ne] by simp
  have sorted: "sorted (map fst ?ys)" by simp
  have "j \<le> fst (last ?ys)" if "(j, t) \<in> set xs" for j t
  proof -
    from that have "j \<in> set (map fst ?ys)" by force
    with sorted have "j \<le> last (map fst ?ys)" by (rule sorted_le_last)
    then show ?thesis using ne by (simp add: last_map)
  qed
  with mem show ?thesis
    unfolding lastByIndex_def
    by (intro exI [of _ "fst (last ?ys)"]) auto
qed

lemma regexAll_no_start:
  assumes "\<And>c s. c \<in> A \<Longrightarrow> m (c # s) = None" and "set s \<subseteq> A"
  shows "regexAll m s i = []"
  using assms(2)
proof (induction s arbitrary: i)
  case Nil
  show ?case by (subst regexAll.simps) simp
next
  case (Cons c s)
  then have "m (c # s) = None" and "set s \<subseteq> A" using assms(1) by simp_all
  with Cons.IH show ?case by (subst regexAll.simps) simp
qed

lemma matchPrefixRun_None:
  assumes "p \<noteq> []" and "c \<noteq> hd p"
  shows "matchPrefixRun p cls lo hi (c # s) = None"
proof -
  from assms obtain a p' where "p = a # p'" and "c \<noteq> a" by (cases p) auto
  then show ?thesis by (simp add: matchPrefixRun_def)
qed

lemma refreshRegex3_None: "c \<noteq> CHR 0x22 \<Longrightarrow> refreshRegex3 (c # s) = None"
  by (simp add: refreshRegex3_def)

lemma scanContent_chars:
  "set scanContent \<subseteq> {CHR 0x20, CHR ''y'', CHR ''a'', CHR ''2'', CHR ''9'', CHR ''.'', CHR ''A'', CHR ''B''}"
  by (auto simp: scanContent_def tokenA_def tokenB_def)

lemma scanContent_direct:
  "regexAll directRegex scanContent 0 = [(100, tokenA), (500, tokenB)]"
  unfolding scanContent_def tokenA_def tokenB_def by code_simp

lemma scanContent_allTokens: "allTokens h scanContent = [(100, tokenA), (500, tokenB)]"
proof -
  have "regexAll base64Regex scanContent 0 = []"
  proof (rule regexAll_no_start [OF _ scanContent_chars])
    fix c :: char and s
    assume "c \<in> {CHR 0x20, CHR ''y'', CHR ''a'', CHR ''2'', CHR ''9'', CHR ''.'', CHR ''A'', CHR ''B''}"
    then have "c \<noteq> hd ''eWEyOS''" by auto
    then show "base64Regex (c # s) = None"
      unfolding base64Regex_def by (intro matchPrefixRun_None) simp_all
  qed
  then show ?thesis
    by (simp add: allTokens_def base64Tokens_def scanContent_direct)
qed

lemma scanContent_refreshTokens: "refreshTokens scanContent = []"
proof -
  let ?A = "{CHR 0x20, CHR ''y'', CHR ''a'', CHR ''2'', CHR ''9'', CHR ''.'', CHR ''A'', CHR ''B''}"
  have 1: "regexAll refreshRegex1 scanContent 0 = []"
  proof (rule regexAll_no_start [OF _ scanContent_chars])
    fix c :: char and s
    assume "c \<in> ?A"
    then have "c \<noteq> hd ''1/''" by auto
    then show "refreshRegex1 (c # s) = None"
      unfolding refreshRegex1_def by (intro matchPrefixRun_None) simp_all
  qed
  have 2: "regexAll refreshRegex2 scanContent 0 = []"
  proof (rule regexAll_no_start [OF _ scanContent_chars])
    fix c :: char and s
    assume "c \<in> ?A"
    then have "c \<noteq> hd ''1//''" by auto
    then show "refreshRegex2 (c # s) = None"
      unfolding refreshRegex2_def by (intro matchPrefixRun_None) simp_all
  qed
  have 3: "regexAll refreshRegex3 scanContent 0 = []"
  proof (rule regexAll_no_start [OF _ scanContent_chars])
    fix c :: char and s
    assume "c \<in> ?A"
    then have "c \<noteq> CHR 0x22" by auto
    then show "refreshRegex3 (c # s) = None" by (rule refreshRegex3_None)
  qed
  from 1 2 3 show ?thesis by (simp add: refreshTokens_def)
qed

lemma refreshContent_refreshTokens:
  "refreshTokens refreshContent
     = [(0, ''1//'' @ replicate 36 CHR ''r''), (40, ''1//'' @ replicate 36 CHR ''s'')]"
  unfolding refreshTokens_def refreshContent_def tokenA_def by code_simp

lemma refreshContent_direct:
  "regexAll directRegex refreshContent 0 = [(80, tokenA)]"
  unfolding refreshContent_def tokenA_def by code_simp

lemma refreshContent_base64: "regexAll base64Regex refreshContent 0 = []"
  unfolding refreshContent_def tokenA_def by code_simp

lemma refreshContent_allTokens: "allTokens h refreshContent = [(80, tokenA)]"
  by (simp add: allTokens_def base64Tokens_def refreshContent_base64 refreshContent_direct)

lemma scanHost_db: "dbExists (scanHost content) \<and> dbText (scanHost content) = Some content"
  by (simp add: scanHost_def)

section \<open>The claims\<close>

text \<open>
  C9. Round trip: the pair of an access token \<open>T\<close> and a refresh token \<open>R\<close>, encoded in
  the two-level shape (inner message with the access token at field 1 and the refresh
  token at field 3, wrapped as a length-delimited outer field), is decoded by
  \<open>findField\<close> followed by \<open>parseOAuthTokenInfo\<close> to exactly that pair. The outer field
  number is any number whose tag fits a signed 32-bit integer; the source uses 6 and 1.
\<close>

theorem token_blob_roundtrip:
  assumes "0 < outer" and "outer < 2 ^ 28"
  shows "findField (encodeTokenBlob outer T R) (int outer) = Inr (Some (encodeOAuthTokenInfo T R))
         \<and> parseOAuthTokenInfo (encodeOAuthTokenInfo T R)
             = \<lparr>accessToken_opt = Some T, refreshToken_opt = Some R\<rparr>"
proof
  have "\<forall>f \<in> set [LenField outer (encodeOAuthTokenInfo T R)]. wellFormed f"
    using assms by simp
  moreover have "0 \<le> int outer" by simp
  moreover from assms(2) have "int outer < 2 ^ 28"
    by (metis of_nat_less_iff of_nat_numeral of_nat_power)
  ultimately have "findField (encodeMessage [LenField outer (encodeOAuthTokenInfo T R)]) (int outer)
      = Inr (firstLenField [LenField outer (encodeOAuthTokenInfo T R)] (int outer))"
    by (rule findField_encode)
  then show "findField (encodeTokenBlob outer T R) (int outer) = Inr (Some (encodeOAuthTokenInfo T R))"
    by (simp add: encodeTokenBlob_def)
next
  have "\<forall>f \<in> set [LenField 1 (fromString T), LenField 3 (fromString R)]. wellFormed f"
    by simp
  from parseOAuthTokenInfo_encode [OF this, of "[]"]
  show "parseOAuthTokenInfo (encodeOAuthTokenInfo T R)
          = \<lparr>accessToken_opt = Some T, refreshToken_opt = Some R\<rparr>"
    by (simp add: encodeOAuthTokenInfo_def toString_fromString parseOAuthTokenInfo_loop_end)
qed

theorem token_blob_roundtrip_witness:
  "(0::nat) < 6 \<and> (6::nat) < 2 ^ 28
   \<and> findField (encodeTokenBlob 6 ''AT2'' ''RT2'') (int 6) = Inr (Some (encodeOAuthTokenInfo ''AT2'' ''RT2''))
   \<and> parseOAuthTokenInfo (encodeOAuthTokenInfo ''AT2'' ''RT2'')
             = \<lparr>accessToken_opt = Some ''AT2'', refreshToken_opt = Some ''RT2''\<rparr>"
proof -
  have a: "(0::nat) < 6" and b: "(6::nat) < 2 ^ 28" by simp_all
  from a b token_blob_roundtrip [OF a b, of "''AT2''" "''RT2''"] show ?thesis by blast
qed

text \<open>
  C7. In a buffer that is a sequence of well-formed fields, at the value of any field,
  \<open>skipField\<close> called with the field's wire type (one of 0, 1, 2, 5) returns the offset
  just past that field; for every other wire type it fails with the unknown-wire-type
  error, whatever the buffer and offset; and reading a tag and skipping the value,
  repeated from offset 0, ends exactly at the length of the buffer.
\<close>

theorem skipField_one_field:
  assumes "\<forall>g \<in> set (fs1 @ f # fs2). wellFormed g"
  shows "int (wireType f) \<in> {0, 1, 2, 5}
         \<and> skipField (encodeMessage (fs1 @ f # fs2))
               (length (encodeMessage fs1) + length (encodeVarint (tagOf f))) (int (wireType f))
             = Inr (length (encodeMessage fs1) + length (encodeField f))
         \<and> (\<forall>data offset wt. wt \<notin> {0, 1, 2, 5} \<longrightarrow>
                skipField data offset wt = Inl (UnknownWireType wt))
         \<and> scanFields (encodeMessage (fs1 @ f # fs2)) 0
             = Inr (length (encodeMessage (fs1 @ f # fs2)))"
proof (intro conjI)
  show "int (wireType f) \<in> {0, 1, 2, 5}" by (cases f) simp_all
next
  from assms have wf: "wellFormed f" by simp
  have "encodeMessage (fs1 @ f # fs2) = encodeMessage fs1 @ encodeField f @ encodeMessage fs2"
    by (simp add: encodeMessage_append encodeMessage_Cons)
  then show "skipField (encodeMessage (fs1 @ f # fs2))
               (length (encodeMessage fs1) + length (encodeVarint (tagOf f))) (int (wireType f))
             = Inr (length (encodeMessage fs1) + length (encodeField f))"
    using skipField_in_field [OF wf, of "encodeMessage fs1" "encodeMessage fs2"] by simp
next
  show "\<forall>data offset wt. wt \<notin> {0, 1, 2, 5} \<longrightarrow>
          skipField data offset wt = Inl (UnknownWireType wt)"
    by (simp add: skipField_def)
next
  from scanFields_encode [OF assms, of "[]"]
  show "scanFields (encodeMessage (fs1 @ f # fs2)) 0 = Inr (length (encodeMessage (fs1 @ f # fs2)))"
    by simp
qed

theorem skipField_one_field_witness:
  "list_all wellFormed ([LenField 1 [0x41, 0x54]] @ VarintField 2 300 # [Fixed32Field 4 [1, 2, 3, 4]])
   \<and> skipField (encodeMessage ([LenField 1 [0x41, 0x54]] @ VarintField 2 300 # [Fixed32Field 4 [1, 2, 3, 4]]))
        (length (encodeMessage [LenField 1 [0x41, 0x54]]) + length (encodeVarint (tagOf (VarintField 2 300))))
        (int (wireType (VarintField 2 300)))
      = Inr (length (encodeMessage [LenField 1 [0x41, 0x54]]) + length (encodeField (VarintField 2 300)))
   \<and> skipField [0x0b] 1 3 = Inl (UnknownWireType 3)
   \<and> scanFields (encodeMessage ([LenField 1 [0x41, 0x54]] @ VarintField 2 300 # [Fixed32Field 4 [1, 2, 3, 4]])) 0
      = Inr (length (encodeMessage ([LenField 1 [0x41, 0x54]] @ VarintField 2 300 # [Fixed32Field 4 [1, 2, 3, 4]])))"
proof -
  have h: "\<forall>g \<in> set ([LenField 1 [0x41, 0x54]] @ VarintField 2 300 # [Fixed32Field 4 [1, 2, 3, 4]]). wellFormed g"
    by simp
  have l: "list_all wellFormed ([LenField 1 [0x41, 0x54]] @ VarintField 2 300 # [Fixed32Field 4 [1, 2, 3, 4]])"
    by simp
  have "(3::int) \<notin> {0, 1, 2, 5}" by simp
  with l skipField_one_field [OF h] show ?thesis by blast
qed

text \<open>
  C8, as the code has it. For a buffer that is a sequence of well-formed fields and a
  target number from 0 to below \<open>2 ^ 28\<close>, so that the tag of the field looked for fits a
  signed 32-bit integer, \<open>findField\<close> returns the payload of the first length-delimited
  field with the target number, and nothing when there is none; and a length-delimited
  field \<open>n\<close> with payload \<open>p\<close> is found with that payload whatever well-formed unrelated
  fields stand before it and whatever well-formed fields stand after it. The other fields
  of the buffer may have any Protobuf field number.
\<close>

theorem findField_first_occurrence:
  assumes "\<forall>f \<in> set fs \<union> set xs \<union> set ys. wellFormed f"
    and "0 \<le> target" and "target < 2 ^ 28"
    and "0 < n" and "n < 2 ^ 28"
  shows "findField (encodeMessage fs) target = Inr (firstLenField fs target)
         \<and> ((\<forall>f \<in> set xs. \<not> isTarget (int n) f) \<longrightarrow>
              findField (encodeMessage (xs @ LenField n p # ys)) (int n) = Inr (Some p))"
proof
  from assms(1) have "\<forall>f \<in> set fs. wellFormed f" by blast
  then show "findField (encodeMessage fs) target = Inr (firstLenField fs target)"
    using assms(2,3) by (rule findField_encode)
next
  show "(\<forall>f \<in> set xs. \<not> isTarget (int n) f) \<longrightarrow>
          findField (encodeMessage (xs @ LenField n p # ys)) (int n) = Inr (Some p)"
  proof
    assume unrelated: "\<forall>f \<in> set xs. \<not> isTarget (int n) f"
    from assms(1,4,5) have "\<forall>f \<in> set (xs @ LenField n p # ys). wellFormed f" by auto
    moreover have "0 \<le> int n" by simp
    moreover from assms(5) have "int n < 2 ^ 28"
      by (metis of_nat_less_iff of_nat_numeral of_nat_power)
    ultimately have "findField (encodeMessage (xs @ LenField n p # ys)) (int n)
        = Inr (firstLenField (xs @ LenField n p # ys) (int n))"
      by (rule findField_encode)
    with firstLenField_insert [OF unrelated, of p ys]
    show "findField (encodeMessage (xs @ LenField n p # ys)) (int n) = Inr (Some p)"
      by simp
  qed
qed

theorem findField_first_occurrence_witness:
  "list_all wellFormed
      ([LenField (2 ^ 28) [0x57], VarintField 2 300, LenField 6 [0x58], LenField 6 [0x59]]
        @ [Fixed32Field 4 [1, 2, 3, 4], LenField (2 ^ 28) [0x5a]] @ [VarintField (2 ^ 29 - 1) 1])
   \<and> (0::int) \<le> 6 \<and> (6::int) < 2 ^ 28 \<and> (0::nat) < 6 \<and> (6::nat) < 2 ^ 28
   \<and> list_all (\<lambda>f. \<not> isTarget (int 6) f) [Fixed32Field 4 [1, 2, 3, 4], LenField (2 ^ 28) [0x5a]]
   \<and> findField (encodeMessage
          [LenField (2 ^ 28) [0x57], VarintField 2 300, LenField 6 [0x58], LenField 6 [0x59]]) 6
        = Inr (Some [0x58])
   \<and> findField (encodeMessage
          [LenField (2 ^ 28) [0x57], VarintField 2 300, LenField 6 [0x58], LenField 6 [0x59]]) 5
        = Inr None
   \<and> findField (encodeMessage ([Fixed32Field 4 [1, 2, 3, 4], LenField (2 ^ 28) [0x5a]]
                                  @ LenField 6 [0x58] # [VarintField (2 ^ 29 - 1) 1])) (int 6)
        = Inr (Some [0x58])"
proof -
  let ?fs = "[LenField (2 ^ 28) [0x57], VarintField 2 300, LenField 6 [0x58], LenField 6 [0x59]]"
  let ?xs = "[Fixed32Field 4 [1, 2, 3, 4], LenField (2 ^ 28) [0x5a]]"
  let ?ys = "[VarintField (2 ^ 29 - 1) 1]"
  have h: "\<forall>f \<in> set ?fs \<union> set ?xs \<union> set ?ys. wellFormed f" by simp
  have l: "list_all wellFormed (?fs @ ?xs @ ?ys)" by simp
  have t0: "(0::int) \<le> 6" and t1: "(6::int) < 2 ^ 28" by simp_all
  have s0: "(0::int) \<le> 5" and s1: "(5::int) < 2 ^ 28" by simp_all
  have a: "(0::nat) < 6" and b: "(6::nat) < 2 ^ 28" by simp_all
  have u: "\<forall>f \<in> set ?xs. \<not> isTarget (int 6) f" by simp
  have lu: "list_all (\<lambda>f. \<not> isTarget (int 6) f) ?xs" by simp
  have "findField (encodeMessage ?fs) 6 = Inr (Some [0x58])"
    using findField_first_occurrence [OF h t0 t1 a b] by simp
  moreover have "findField (encodeMessage ?fs) 5 = Inr None"
    using findField_first_occurrence [OF h s0 s1 a b] by simp
  moreover have "findField (encodeMessage (?xs @ LenField 6 [0x58] # ?ys)) (int 6) = Inr (Some [0x58])"
    using findField_first_occurrence [OF h t0 t1 a b, of "[0x58]"] u by blast
  ultimately show ?thesis using l t0 t1 a b lu by blast
qed

text \<open>
  C8, as stated, fails. Field number \<open>2 ^ 28\<close> is a Protobuf field number, its tag is
  \<open>2 ^ 31 + 2\<close>, and \<open>tag >> 3\<close> on the signed 32-bit integer is \<open>- 2 ^ 28\<close>: the buffer
  \<open>82 80 80 80 08 01 58\<close> holds the field with payload \<open>58\<close>, and \<open>findField\<close> skips it.
\<close>

theorem findField_wide_tag_counterexample:
  "wellFormed (LenField (2 ^ 28) [0x58])
   \<and> firstLenField [LenField (2 ^ 28) [0x58]] (2 ^ 28) = Some [0x58]
   \<and> findField (encodeMessage [LenField (2 ^ 28) [0x58]]) (2 ^ 28) = Inr None"
proof (intro conjI)
  show wf: "wellFormed (LenField (2 ^ 28) [0x58])" by simp
  show "firstLenField [LenField (2 ^ 28) [0x58]] (2 ^ 28) = Some [0x58]" by simp
  let ?f = "LenField (2 ^ 28) [0x58]"
  have "\<not> (fieldNumOf (tagOf ?f) = 2 ^ 28 \<and> wireType ?f = 2)"
    by (simp only: fieldNumOf_wide) simp
  from findField_loop_skip [OF wf this, of "[]" "[]"]
  have "findField_loop (encodeField ?f) (2 ^ 28) 0 = findField_loop (encodeField ?f) (2 ^ 28) (length (encodeField ?f))"
    by simp
  then show "findField (encodeMessage [?f]) (2 ^ 28) = Inr None"
    by (simp add: findField_def encodeMessage_def findField_loop_end)
qed

text \<open>
  C1. For an account with a stored credential record (a non-empty value that parses) and
  \<open>now < expiresAt - 5 min\<close>, \<open>getToken\<close> returns the cached access token and leaves the
  storage and the record of calls as they were: no call of \<open>refreshAccessToken\<close>, no
  request to the endpoint, no recovery. A second call, at any time \<open>t\<close> still before
  \<open>expiresAt - 5 min\<close>, returns the same token, again with nothing changed.
\<close>

theorem fresh_token_cached:
  assumes "secrets w (TOKEN_PREFIX @ e) = Some stored"
    and "stored \<noteq> []"
    and "JSON_parse_credential h stored = Some credential"
    and "now h < expiresAt credential - 5 * 60 * 1000"
    and "t < expiresAt credential - 5 * 60 * 1000"
  shows "getToken h e w = (Some (accessToken credential), w)
         \<and> getToken (h\<lparr>now := t\<rparr>) e (snd (getToken h e w)) = (Some (accessToken credential), w)"
proof -
  have one: "getToken h' e w = (Some (accessToken credential), w)"
    if "JSON_parse_credential h' stored = Some credential"
      and "now h' < expiresAt credential - 5 * 60 * 1000" for h'
    using assms(1,2) that by (simp add: getToken_def truthy_Some)
  have first: "getToken h e w = (Some (accessToken credential), w)"
    using assms(3,4) by (rule one)
  have "getToken (h\<lparr>now := t\<rparr>) e w = (Some (accessToken credential), w)"
    using assms(3,5) by (intro one) simp_all
  with first show ?thesis by simp
qed

theorem fresh_token_cached_witness:
  "secrets (exampleWorld ''{credential}'') (TOKEN_PREFIX @ ''a@x.com'') = Some ''{credential}''
   \<and> ''{credential}'' \<noteq> []
   \<and> JSON_parse_credential exampleHost ''{credential}'' = Some exampleCredential
   \<and> now exampleHost < expiresAt exampleCredential - 5 * 60 * 1000
   \<and> 2000000 < expiresAt exampleCredential - 5 * 60 * 1000
   \<and> getToken exampleHost ''a@x.com'' (exampleWorld ''{credential}'')
        = (Some ''AT1'', exampleWorld ''{credential}'')
   \<and> getToken (exampleHost\<lparr>now := 2000000\<rparr>) ''a@x.com''
          (snd (getToken exampleHost ''a@x.com'' (exampleWorld ''{credential}'')))
        = (Some ''AT1'', exampleWorld ''{credential}'')"
proof -
  have a: "secrets (exampleWorld ''{credential}'') (TOKEN_PREFIX @ ''a@x.com'') = Some ''{credential}''"
    by (simp add: exampleWorld_def)
  have b: "''{credential}'' \<noteq> []" by simp
  have c: "JSON_parse_credential exampleHost ''{credential}'' = Some exampleCredential"
    by (simp add: exampleHost_def)
  have d: "now exampleHost < expiresAt exampleCredential - 5 * 60 * 1000"
    by (simp add: exampleHost_def exampleCredential_def)
  have e: "2000000 < expiresAt exampleCredential - 5 * 60 * 1000"
    by (simp add: exampleCredential_def)
  have f: "accessToken exampleCredential = ''AT1''" by (simp add: exampleCredential_def)
  from fresh_token_cached [OF a b c d e] a b c d e show ?thesis unfolding f by blast
qed

text \<open>
  C2, as the code has it. For an account whose stored record is expired or less than five
  minutes from expiry, \<open>now > expiresAt - 5 min\<close>, \<open>getToken\<close> calls
  \<open>refreshAccessToken\<close> first. When the refresh fails (no refresh token, or the endpoint
  rejects it), the next call is \<open>tryAutoRecovery\<close>. When the recovery fails too (the
  scan of the state database finds no token), the result is the access token of the
  stored record, not \<open>null\<close>, and the storage is unchanged.
\<close>

theorem expired_token_fallback:
  assumes "secrets w (TOKEN_PREFIX @ e) = Some stored"
    and "stored \<noteq> []"
    and "JSON_parse_credential h stored = Some credential"
    and "now h > expiresAt credential - 5 * 60 * 1000"
  shows "(\<exists>evs. events (snd (getToken h e w)) = events w @ RefreshCalled # evs)
         \<and> ((\<forall>rt. refreshToken credential = Some rt \<longrightarrow> tokenEndpoint h rt = None) \<longrightarrow>
              (\<exists>evs. events (snd (getToken h e w))
                       = events w @ RefreshCalled # exchangeEvents credential @ RecoveryCalled e # evs))
         \<and> ((\<forall>rt. refreshToken credential = Some rt \<longrightarrow> tokenEndpoint h rt = None)
              \<and> extractTokensFromDb h = Inr None \<longrightarrow>
              getToken h e w
                = (Some (accessToken credential),
                   w\<lparr>events := events w @ RefreshCalled # exchangeEvents credential
                                  @ [RecoveryCalled e]\<rparr>))"
proof (intro conjI impI)
  obtain refreshed w2 where r: "refreshAccessToken h credential w = (refreshed, w2)"
    by (cases "refreshAccessToken h credential w")
  obtain recovered w3 where t: "tryAutoRecovery h e w2 = (recovered, w3)"
    by (cases "tryAutoRecovery h e w2")
  from refreshAccessToken_events [of h credential w] r
  obtain evs2 where w2: "events w2 = events w @ RefreshCalled # evs2" by auto
  from tryAutoRecovery_events [of h e w2] t
  obtain evs3 where w3: "events w3 = events w2 @ RecoveryCalled e # evs3" by auto
  have unfold: "getToken h e w =
      (case refreshed of
         Some (newAccess, newExpiry) \<Rightarrow>
           (Some newAccess,
            store (TOKEN_PREFIX @ e)
              (JSON_stringify_credential h
                 (credential\<lparr>accessToken := newAccess, expiresAt := newExpiry\<rparr>)) w2)
       | None \<Rightarrow>
           if recovered \<and> truthy (secrets w3 (TOKEN_PREFIX @ e)) then
             (case secrets w3 (TOKEN_PREFIX @ e) of
                None \<Rightarrow> (Some (accessToken credential), w3)
              | Some newStored \<Rightarrow>
                  (case JSON_parse_credential h newStored of
                     None \<Rightarrow> (rawToken stored, w3)
                   | Some newCredential \<Rightarrow> (Some (accessToken newCredential), w3)))
           else (Some (accessToken credential), w3))"
    using assms by (cases refreshed) (simp_all add: getToken_def truthy_Some r t)
  show "\<exists>evs. events (snd (getToken h e w)) = events w @ RefreshCalled # evs"
    unfolding unfold using w2 w3
    by (auto simp: store_def split: option.splits)
  {
    assume fails: "\<forall>rt. refreshToken credential = Some rt \<longrightarrow> tokenEndpoint h rt = None"
    from refreshAccessToken_fails [OF fails, of w] r
    have none: "refreshed = None"
      and w2': "w2 = w\<lparr>events := events w @ RefreshCalled # exchangeEvents credential\<rparr>"
      by simp_all
    from w3 w2' have
      "events w3 = events w @ RefreshCalled # exchangeEvents credential @ RecoveryCalled e # evs3"
      by simp
    then show "\<exists>evs. events (snd (getToken h e w))
                 = events w @ RefreshCalled # exchangeEvents credential @ RecoveryCalled e # evs"
      unfolding unfold none by (auto split: option.splits)
  }
  {
    assume both: "(\<forall>rt. refreshToken credential = Some rt \<longrightarrow> tokenEndpoint h rt = None)
                  \<and> extractTokensFromDb h = Inr None"
    from refreshAccessToken_fails [of credential h w] both r
    have none: "refreshed = None"
      and w2': "w2 = w\<lparr>events := events w @ RefreshCalled # exchangeEvents credential\<rparr>"
      by simp_all
    from tryAutoRecovery_fails [of h e w2] both t
    have no: "recovered = False" and w3': "w3 = w2\<lparr>events := events w2 @ [RecoveryCalled e]\<rparr>"
      by simp_all
    show "getToken h e w
            = (Some (accessToken credential),
               w\<lparr>events := events w @ RefreshCalled # exchangeEvents credential
                              @ [RecoveryCalled e]\<rparr>)"
      unfolding unfold none no w3' w2' by simp
  }
qed

theorem expired_token_fallback_witness:
  "secrets (exampleWorld ''{credential}'') (TOKEN_PREFIX @ ''a@x.com'') = Some ''{credential}''
   \<and> ''{credential}'' \<noteq> []
   \<and> JSON_parse_credential (exampleHost\<lparr>now := 3900000\<rparr>) ''{credential}'' = Some exampleCredential
   \<and> now (exampleHost\<lparr>now := 3900000\<rparr>) > expiresAt exampleCredential - 5 * 60 * 1000
   \<and> tokenEndpoint (exampleHost\<lparr>now := 3900000\<rparr>) ''RT1'' = None
   \<and> extractTokensFromDb (exampleHost\<lparr>now := 3900000\<rparr>) = Inr None
   \<and> getToken (exampleHost\<lparr>now := 3900000\<rparr>) ''a@x.com'' (exampleWorld ''{credential}'')
        = (Some ''AT1'',
           (exampleWorld ''{credential}'')
             \<lparr>events := [RefreshCalled, TokenExchange ''RT1'', RecoveryCalled ''a@x.com'']\<rparr>)"
proof -
  let ?h = "exampleHost\<lparr>now := 3900000\<rparr>"
  let ?w = "exampleWorld ''{credential}''"
  have a: "secrets ?w (TOKEN_PREFIX @ ''a@x.com'') = Some ''{credential}''"
    by (simp add: exampleWorld_def)
  have b: "''{credential}'' \<noteq> []" by simp
  have c: "JSON_parse_credential ?h ''{credential}'' = Some exampleCredential"
    by (simp add: exampleHost_def)
  have d: "now ?h > expiresAt exampleCredential - 5 * 60 * 1000"
    by (simp add: exampleCredential_def)
  have e: "tokenEndpoint ?h ''RT1'' = None" by (simp add: exampleHost_def)
  have e': "\<forall>rt. refreshToken exampleCredential = Some rt \<longrightarrow> tokenEndpoint ?h rt = None"
    by (simp add: exampleHost_def)
  have f: "extractTokensFromDb ?h = Inr None"
    by (simp add: extractTokensFromDb_def exampleHost_def)
  have g: "accessToken exampleCredential = ''AT1''" by (simp add: exampleCredential_def)
  have x: "exchangeEvents exampleCredential = [TokenExchange ''RT1'']"
    by (simp add: exchangeEvents_def exampleCredential_def)
  have ev: "events ?w = []" by (simp add: exampleWorld_def)
  from expired_token_fallback [OF a b c d] e' f
  have "getToken ?h ''a@x.com'' ?w
          = (Some (accessToken exampleCredential),
             ?w\<lparr>events := events ?w @ RefreshCalled # exchangeEvents exampleCredential
                              @ [RecoveryCalled ''a@x.com'']\<rparr>)"
    by blast
  then have "getToken ?h ''a@x.com'' ?w
          = (Some ''AT1'', ?w\<lparr>events := [RefreshCalled, TokenExchange ''RT1'', RecoveryCalled ''a@x.com'']\<rparr>)"
    by (simp only: g x ev append_Nil append_Cons)
  with a b c d e f show ?thesis by blast
qed

text \<open>
  C2, as stated, fails. The spec serves the cached token when \<open>now < expiresAt - 5 min\<close>
  and refreshes otherwise; the code refreshes when \<open>now > expiresAt - 5 min\<close>. At exactly
  five minutes before expiry the record is within five minutes of expiry, and \<open>getToken\<close>
  returns the cached token with no call of \<open>refreshAccessToken\<close>.
\<close>

theorem five_minutes_before_expiry_counterexample:
  "secrets (exampleWorld ''{credential}'') (TOKEN_PREFIX @ ''a@x.com'') = Some ''{credential}''
   \<and> JSON_parse_credential (exampleHost\<lparr>now := 3700000\<rparr>) ''{credential}'' = Some exampleCredential
   \<and> now (exampleHost\<lparr>now := 3700000\<rparr>) = expiresAt exampleCredential - 5 * 60 * 1000
   \<and> getToken (exampleHost\<lparr>now := 3700000\<rparr>) ''a@x.com'' (exampleWorld ''{credential}'')
        = (Some ''AT1'', exampleWorld ''{credential}'')
   \<and> events (snd (getToken (exampleHost\<lparr>now := 3700000\<rparr>) ''a@x.com''
                      (exampleWorld ''{credential}''))) = []"
proof -
  have a: "secrets (exampleWorld ''{credential}'') (TOKEN_PREFIX @ ''a@x.com'') = Some ''{credential}''"
    by (simp add: exampleWorld_def)
  have c: "JSON_parse_credential (exampleHost\<lparr>now := 3700000\<rparr>) ''{credential}'' = Some exampleCredential"
    by (simp add: exampleHost_def)
  have d: "now (exampleHost\<lparr>now := 3700000\<rparr>) = expiresAt exampleCredential - 5 * 60 * 1000"
    by (simp add: exampleCredential_def)
  have g: "getToken (exampleHost\<lparr>now := 3700000\<rparr>) ''a@x.com'' (exampleWorld ''{credential}'')
             = (Some ''AT1'', exampleWorld ''{credential}'')"
    using a c d by (simp add: getToken_def truthy_Some exampleCredential_def)
  have e: "events (exampleWorld ''{credential}'') = []" by (simp add: exampleWorld_def)
  from a c d g e show ?thesis by simp
qed

text \<open>
  C10. For an account whose stored value is longer than 10 characters and is not JSON,
  \<open>getToken\<close> returns that value as the access token and \<open>hasToken\<close> returns false.
\<close>

theorem raw_token_disagreement:
  assumes "secrets w (TOKEN_PREFIX @ e) = Some raw"
    and "10 < length raw"
    and "JSON_parse_credential h raw = None"
  shows "getToken h e w = (Some raw, w) \<and> hasToken h e w = False"
proof
  from assms(2) have ne: "raw \<noteq> []" by auto
  show "getToken h e w = (Some raw, w)"
    using assms ne by (simp add: getToken_def truthy_Some rawToken_def)
  show "hasToken h e w = False"
    using assms ne by (simp add: hasToken_def)
qed

theorem raw_token_disagreement_witness:
  "secrets (exampleWorld ''ya29.legacy-raw'') (TOKEN_PREFIX @ ''a@x.com'') = Some ''ya29.legacy-raw''
   \<and> 10 < length ''ya29.legacy-raw''
   \<and> JSON_parse_credential exampleHost ''ya29.legacy-raw'' = None
   \<and> getToken exampleHost ''a@x.com'' (exampleWorld ''ya29.legacy-raw'')
        = (Some ''ya29.legacy-raw'', exampleWorld ''ya29.legacy-raw'')
   \<and> hasToken exampleHost ''a@x.com'' (exampleWorld ''ya29.legacy-raw'') = False"
proof -
  have a: "secrets (exampleWorld ''ya29.legacy-raw'') (TOKEN_PREFIX @ ''a@x.com'') = Some ''ya29.legacy-raw''"
    by (simp add: exampleWorld_def)
  have b: "10 < length ''ya29.legacy-raw''" by simp
  have c: "JSON_parse_credential exampleHost ''ya29.legacy-raw'' = None"
    by (simp add: exampleHost_def)
  from raw_token_disagreement [OF a b c] a b c show ?thesis by blast
qed

text \<open>
  C3, where the code fails. With no snapshot for the email, \<open>switchToAccount\<close> returns
  false, runs no command and leaves the state database as it was. With the snapshot of a
  JSON status record, it runs one command, and \<open>escapeQuotes\<close> has changed nothing in the
  blob: the double quotes of the blob stand bare inside the double-quoted argument that
  carries the statement, so that the quoted text which opens that argument ends at the
  first double quote of the blob, after \<open>UPDATE ItemTable SET value='{\<close>.
\<close>

theorem switch_leaves_double_quotes_bare:
  "fst (loadSnapshots jsonShell jsonSwitcher) ''a@x.com'' = None
   \<and> fst (switchToAccount jsonShell ''a@x.com'' jsonSwitcher) = False
   \<and> commands (snd (switchToAccount jsonShell ''a@x.com'' jsonSwitcher)) = []
   \<and> stateDb (snd (switchToAccount jsonShell ''a@x.com'' jsonSwitcher)) = ''untouched''
   \<and> fst (loadSnapshots jsonShell jsonSwitcher) ''b@x.com'' = Some jsonSnapshot
   \<and> escapeQuotes (authStatus jsonSnapshot) = jsonBlob
   \<and> commands (snd (switchToAccount jsonShell ''b@x.com'' jsonSwitcher))
        = [''sqlite3 '' @ [CHR 0x22] @ ''C:/state.vscdb'' @ [CHR 0x22] @ '' ''
            @ [CHR 0x22] @ ''UPDATE ItemTable SET value='' @ [CHR 0x27] @ ''{''
            @ [CHR 0x22] @ ''email'' @ [CHR 0x22] @ '':'' @ [CHR 0x22] @ ''b@x.com'' @ [CHR 0x22]
            @ '','' @ [CHR 0x22] @ ''apiKey'' @ [CHR 0x22] @ '':'' @ [CHR 0x22] @ ''AT1''
            @ [CHR 0x22] @ ''}'' @ [CHR 0x27]
            @ '' WHERE key='' @ [CHR 0x27] @ ''antigravityAuthStatus'' @ [CHR 0x27] @ [CHR 0x22]]
   \<and> takeWhile (\<lambda>c. c \<noteq> CHR 0x22)
         (drop (length (''sqlite3 '' @ [CHR 0x22] @ ''C:/state.vscdb'' @ [CHR 0x22] @ '' '' @ [CHR 0x22]))
            (hd (commands (snd (switchToAccount jsonShell ''b@x.com'' jsonSwitcher)))))
        = ''UPDATE ItemTable SET value='' @ [CHR 0x27] @ ''{''"
proof -
  have none: "fst (loadSnapshots jsonShell jsonSwitcher) ''a@x.com'' = None"
    by (simp add: jsonSwitcher_snapshots)
  have some: "fst (loadSnapshots jsonShell jsonSwitcher) ''b@x.com'' = Some jsonSnapshot"
    by (simp add: jsonSwitcher_snapshots)
  have blob: "escapeQuotes (authStatus jsonSnapshot) = jsonBlob"
    by (simp add: jsonSnapshot_def jsonBlob_escaped)
  have db: "stateDb jsonSwitcher = ''untouched''" and cm: "commands jsonSwitcher = []"
    by (simp_all add: jsonSwitcher_def)
  have path: "dbPathForward jsonShell = ''C:/state.vscdb''" by (simp add: jsonShell_def)
  note sw = switchToAccount_commands [of jsonShell jsonSwitcher]
  from sw [of "''a@x.com''"] none
  have a1: "fst (switchToAccount jsonShell ''a@x.com'' jsonSwitcher) = False"
    and a2: "commands (snd (switchToAccount jsonShell ''a@x.com'' jsonSwitcher)) = []"
    and a3: "stateDb (snd (switchToAccount jsonShell ''a@x.com'' jsonSwitcher)) = ''untouched''"
    by (simp_all add: db cm)
  from sw [of "''b@x.com''"] some
  have "commands (snd (switchToAccount jsonShell ''b@x.com'' jsonSwitcher))
          = commands jsonSwitcher
              @ [updateCommand (dbPathForward jsonShell) (escapeQuotes (authStatus jsonSnapshot))]"
    by blast
  then have b1: "commands (snd (switchToAccount jsonShell ''b@x.com'' jsonSwitcher))
        = [''sqlite3 '' @ [CHR 0x22] @ ''C:/state.vscdb'' @ [CHR 0x22] @ '' ''
            @ [CHR 0x22] @ ''UPDATE ItemTable SET value='' @ [CHR 0x27] @ ''{''
            @ [CHR 0x22] @ ''email'' @ [CHR 0x22] @ '':'' @ [CHR 0x22] @ ''b@x.com'' @ [CHR 0x22]
            @ '','' @ [CHR 0x22] @ ''apiKey'' @ [CHR 0x22] @ '':'' @ [CHR 0x22] @ ''AT1''
            @ [CHR 0x22] @ ''}'' @ [CHR 0x27]
            @ '' WHERE key='' @ [CHR 0x27] @ ''antigravityAuthStatus'' @ [CHR 0x27] @ [CHR 0x22]]"
    by (simp add: cm path blob updateCommand_def jsonBlob_def)
  have b2: "takeWhile (\<lambda>c. c \<noteq> CHR 0x22)
         (drop (length (''sqlite3 '' @ [CHR 0x22] @ ''C:/state.vscdb'' @ [CHR 0x22] @ '' '' @ [CHR 0x22]))
            (hd (commands (snd (switchToAccount jsonShell ''b@x.com'' jsonSwitcher)))))
        = ''UPDATE ItemTable SET value='' @ [CHR 0x27] @ ''{''"
    unfolding b1 by simp
  from none a1 a2 a3 some blob b1 b2 show ?thesis by blast
qed

text \<open>
  C4, as the code has it. When the status of the host gives a non-empty email and a
  non-empty key, \<open>captureCurrentToken\<close> succeeds and stores the new record under the
  lowercased email of the host, whatever the argument; the mismatch warning is shown
  exactly when the lowercased argument differs from that email, and the capture
  completes all the same.
\<close>

theorem capture_keyed_by_active_identity:
  assumes "getAuthStatus h = Inr (Some a)"
    and "authEmail a = Some ce" and "ce \<noteq> []"
    and "apiKey a = Some k" and "k \<noteq> []"
  shows "captureCurrentToken h e w =
           (True,
            \<lparr>secrets = (secrets w)(TOKEN_PREFIX @ toLowerCase ce \<mapsto>
                          JSON_stringify_credential h (capturedCredential h (toLowerCase ce) k)),
             events = events w
               @ (if toLowerCase e \<noteq> toLowerCase ce
                  then [ShowWarningMessage (EmailMismatch (toLowerCase ce) e)] else [])
               @ [ShowInformationMessage
                    (TokenCaptured (toLowerCase ce) (truthy (capturedRefreshToken h)))]\<rparr>)"
  using assms
  by (simp add: captureCurrentToken_def captureCurrentToken_try_def catch_def tryCatch_def truthy_def
      toLowerCase_Nil capturedCredential_def capturedRefreshToken_def emit_def store_def Let_def)

theorem capture_keyed_by_active_identity_witness:
  "getAuthStatus (loggedInHost [])
     = Inr (Some \<lparr>authEmail = Some ''a@x.com'', apiKey = Some ''AT1''\<rparr>)
   \<and> ''a@x.com'' \<noteq> [] \<and> ''AT1'' \<noteq> []
   \<and> fst (captureCurrentToken (loggedInHost []) ''b@x.com'' emptyWorld) = True
   \<and> secrets (snd (captureCurrentToken (loggedInHost []) ''b@x.com'' emptyWorld))
        = [TOKEN_PREFIX @ ''a@x.com'' \<mapsto> ''{credential}'']
   \<and> events (snd (captureCurrentToken (loggedInHost []) ''b@x.com'' emptyWorld))
        = [ShowWarningMessage (EmailMismatch ''a@x.com'' ''b@x.com''),
           ShowInformationMessage (TokenCaptured ''a@x.com'' False)]"
proof -
  let ?a = "\<lparr>authEmail = Some ''a@x.com'', apiKey = Some ''AT1''\<rparr>"
  have s: "getAuthStatus (loggedInHost []) = Inr (Some ?a)" by (rule loggedIn_status)
  have e: "authEmail ?a = Some ''a@x.com''" and k: "apiKey ?a = Some ''AT1''" by simp_all
  have ne: "''a@x.com'' \<noteq> []" and nk: "''AT1'' \<noteq> []" by simp_all
  have str: "JSON_stringify_credential (loggedInHost []) c = ''{credential}''" for c
    by (simp add: loggedInHost_def)
  have "captureCurrentToken (loggedInHost []) ''b@x.com'' emptyWorld
          = (True,
             \<lparr>secrets = [TOKEN_PREFIX @ ''a@x.com'' \<mapsto> ''{credential}''],
              events = [ShowWarningMessage (EmailMismatch ''a@x.com'' ''b@x.com''),
                        ShowInformationMessage (TokenCaptured ''a@x.com'' False)]\<rparr>)"
    using capture_keyed_by_active_identity [OF s e ne k nk, of "''b@x.com''" emptyWorld]
    by (simp add: lower_a lower_b loggedIn_refresh str truthy_def emptyWorld_def)
  with s ne nk show ?thesis by simp
qed

text \<open>
  C4, as stated, fails. The host is logged in as \<open>a@x.com\<close> and the argument is
  \<open>A@X.com\<close>: the extracted email differs from the argument, and no warning is shown.
\<close>

theorem capture_case_only_difference_counterexample:
  "getAuthStatus (loggedInHost [])
     = Inr (Some \<lparr>authEmail = Some ''a@x.com'', apiKey = Some ''AT1''\<rparr>)
   \<and> ''a@x.com'' \<noteq> ''A@X.com''
   \<and> fst (captureCurrentToken (loggedInHost []) ''A@X.com'' emptyWorld) = True
   \<and> events (snd (captureCurrentToken (loggedInHost []) ''A@X.com'' emptyWorld))
        = [ShowInformationMessage (TokenCaptured ''a@x.com'' False)]"
proof -
  have "captureCurrentToken (loggedInHost []) ''A@X.com'' emptyWorld
          = (True,
             \<lparr>secrets = [TOKEN_PREFIX @ ''a@x.com'' \<mapsto> ''{credential}''],
              events = [ShowInformationMessage (TokenCaptured ''a@x.com'' False)]\<rparr>)"
    using loggedIn_status [of "[]"] loggedIn_refresh [of "[]"]
    by (simp add: captureCurrentToken_def captureCurrentToken_try_def catch_def tryCatch_def truthy_def
        lower_a lower_A capturedRefreshToken_def emit_def store_def Let_def emptyWorld_def
        loggedInHost_def)
  then show ?thesis using loggedIn_status [of "[]"] by simp
qed




text \<open>
  C5. When the byte scan finds access tokens, the one it returns is a match whose offset
  no other match exceeds, and the refresh token it returns, when there are refresh-token
  matches, is likewise one with the greatest offset. With bearer tokens at offsets 100
  and 500 the one at offset 500 is returned. Offsets are positions in the text that
  \<open>toString('utf8')\<close> makes of the file, in the order of the bytes.
\<close>

theorem byte_scan_selects_last:
  assumes "dbExists h" and "dbText h = Some content" and "allTokens h content \<noteq> []"
  shows "\<exists>tokens i. extractTokensFromDb h = Inr (Some tokens)
           \<and> (i, accessToken_x tokens) \<in> set (allTokens h content)
           \<and> (\<forall>(j, t) \<in> set (allTokens h content). j \<le> i)
           \<and> (refreshTokens content = [] \<longrightarrow> refreshToken_x tokens = None)
           \<and> (refreshTokens content \<noteq> [] \<longrightarrow>
                (\<exists>k rt. refreshToken_x tokens = Some rt
                   \<and> (k, rt) \<in> set (refreshTokens content)
                   \<and> (\<forall>(j, t) \<in> set (refreshTokens content). j \<le> k)))"
proof -
  let ?tokens = "\<lparr>accessToken_x = lastByIndex (allTokens h content),
                  refreshToken_x = (if refreshTokens content \<noteq> []
                                    then Some (lastByIndex (refreshTokens content)) else None)\<rparr>"
  have ex: "extractTokensFromDb h = Inr (Some ?tokens)"
    using assms
    by (simp add: extractTokensFromDb_def extractTokensFromDb_try_def catch_def tryCatch_def Let_def)
  from lastByIndex_max [OF assms(3)] obtain i
    where i: "(i, lastByIndex (allTokens h content)) \<in> set (allTokens h content)"
      "\<forall>(j, t) \<in> set (allTokens h content). j \<le> i"
    by blast
  have r: "refreshTokens content \<noteq> [] \<longrightarrow>
             (\<exists>k rt. refreshToken_x ?tokens = Some rt \<and> (k, rt) \<in> set (refreshTokens content)
                \<and> (\<forall>(j, t) \<in> set (refreshTokens content). j \<le> k))"
  proof
    assume ne: "refreshTokens content \<noteq> []"
    from lastByIndex_max [OF ne] obtain k
      where "(k, lastByIndex (refreshTokens content)) \<in> set (refreshTokens content)"
        "\<forall>(j, t) \<in> set (refreshTokens content). j \<le> k"
      by blast
    with ne show "\<exists>k rt. refreshToken_x ?tokens = Some rt \<and> (k, rt) \<in> set (refreshTokens content)
                \<and> (\<forall>(j, t) \<in> set (refreshTokens content). j \<le> k)"
      by auto
  qed
  from ex i r show ?thesis
    by (intro exI [of _ ?tokens] exI [of _ i]) simp
qed

theorem byte_scan_selects_last_witness:
  "dbExists (scanHost scanContent) \<and> dbText (scanHost scanContent) = Some scanContent
   \<and> allTokens (scanHost scanContent) scanContent = [(100, tokenA), (500, tokenB)]
   \<and> refreshTokens scanContent = []
   \<and> extractTokensFromDb (scanHost scanContent)
        = Inr (Some \<lparr>accessToken_x = tokenB, refreshToken_x = None\<rparr>)
   \<and> dbExists (scanHost refreshContent) \<and> dbText (scanHost refreshContent) = Some refreshContent
   \<and> allTokens (scanHost refreshContent) refreshContent = [(80, tokenA)]
   \<and> refreshTokens refreshContent
        = [(0, ''1//'' @ replicate 36 CHR ''r''), (40, ''1//'' @ replicate 36 CHR ''s'')]
   \<and> extractTokensFromDb (scanHost refreshContent)
        = Inr (Some \<lparr>accessToken_x = tokenA,
                       refreshToken_x = Some (''1//'' @ replicate 36 CHR ''s'')\<rparr>)"
proof -
  let ?h = "scanHost scanContent"
  let ?g = "scanHost refreshContent"
  note all1 = scanContent_allTokens [of ?h]
  note all2 = refreshContent_allTokens [of ?g]
  have ne1: "allTokens ?h scanContent \<noteq> []" by (simp add: all1)
  have ne2: "allTokens ?g refreshContent \<noteq> []" by (simp add: all2)
  from byte_scan_selects_last [OF scanHost_db [THEN conjunct1] scanHost_db [THEN conjunct2] ne1]
  obtain tokens i where t: "extractTokensFromDb ?h = Inr (Some tokens)"
    and mem: "(i, accessToken_x tokens) \<in> set (allTokens ?h scanContent)"
    and top: "\<forall>(j, t) \<in> set (allTokens ?h scanContent). j \<le> i"
    and nor: "refreshTokens scanContent = [] \<longrightarrow> refreshToken_x tokens = None"
    by blast
  from mem top have "accessToken_x tokens = tokenB" unfolding all1 by auto
  moreover from nor have "refreshToken_x tokens = None" by (simp add: scanContent_refreshTokens)
  ultimately have "tokens = \<lparr>accessToken_x = tokenB, refreshToken_x = None\<rparr>" by simp
  with t have first: "extractTokensFromDb ?h
        = Inr (Some \<lparr>accessToken_x = tokenB, refreshToken_x = None\<rparr>)" by simp
  from byte_scan_selects_last [OF scanHost_db [THEN conjunct1] scanHost_db [THEN conjunct2] ne2]
  obtain tokens' i' where t': "extractTokensFromDb ?g = Inr (Some tokens')"
    and mem': "(i', accessToken_x tokens') \<in> set (allTokens ?g refreshContent)"
    and r': "refreshTokens refreshContent \<noteq> [] \<longrightarrow>
                (\<exists>k rt. refreshToken_x tokens' = Some rt
                   \<and> (k, rt) \<in> set (refreshTokens refreshContent)
                   \<and> (\<forall>(j, t) \<in> set (refreshTokens refreshContent). j \<le> k))"
    by blast
  from mem' have "accessToken_x tokens' = tokenA" unfolding all2 by simp
  moreover from r' have "refreshToken_x tokens' = Some (''1//'' @ replicate 36 CHR ''s'')"
    unfolding refreshContent_refreshTokens by auto
  ultimately have "tokens' = \<lparr>accessToken_x = tokenA,
                       refreshToken_x = Some (''1//'' @ replicate 36 CHR ''s'')\<rparr>" by simp
  with t' have second: "extractTokensFromDb ?g
        = Inr (Some \<lparr>accessToken_x = tokenA,
                       refreshToken_x = Some (''1//'' @ replicate 36 CHR ''s'')\<rparr>)" by simp
  from scanHost_db [of scanContent] scanHost_db [of refreshContent] all1 all2
    scanContent_refreshTokens refreshContent_refreshTokens first second
  show ?thesis by simp
qed

end
